theory Spec2Isabelle
  imports Main "HOL-Library.Sublist"
begin

section \<open>Python strings\<close>

text \<open>
  A Python string is modelled as a \<^typ>\<open>string\<close>, one \<^typ>\<open>char\<close> per code point, for
  the code points U+0000 to U+00FF. The tables below are those of CPython 3 over that range.
\<close>

definition dquote :: char where
  "dquote = CHR 0x22"

definition squote :: char where
  "squote = CHR 0x27"

definition whitespace_chars :: "char list" where
  \<comment> \<open>the code points below 256 for which \<^verbatim>\<open>str.isspace\<close> holds; \<^verbatim>\<open>str.strip()\<close> removes them\<close>
  "whitespace_chars =
     [CHR 0x09, CHR 0x0A, CHR 0x0B, CHR 0x0C, CHR 0x0D, CHR 0x1C, CHR 0x1D, CHR 0x1E, CHR 0x1F,
      CHR 0x20, CHR 0x85, CHR 0xA0]"

definition is_space :: "char \<Rightarrow> bool" where
  "is_space c = (c \<in> set whitespace_chars)"

definition strip :: "string \<Rightarrow> string" where
  \<comment> \<open>\<^verbatim>\<open>s.strip()\<close>\<close>
  "strip s = rev (dropWhile is_space (rev (dropWhile is_space s)))"

definition upper_chars :: "char list" where
  "upper_chars = ''ABCDEFGHIJKLMNOPQRSTUVWXYZ'' @
     [CHR 0xC0, CHR 0xC1, CHR 0xC2, CHR 0xC3, CHR 0xC4, CHR 0xC5, CHR 0xC6, CHR 0xC7,
      CHR 0xC8, CHR 0xC9, CHR 0xCA, CHR 0xCB, CHR 0xCC, CHR 0xCD, CHR 0xCE, CHR 0xCF,
      CHR 0xD0, CHR 0xD1, CHR 0xD2, CHR 0xD3, CHR 0xD4, CHR 0xD5, CHR 0xD6,
      CHR 0xD8, CHR 0xD9, CHR 0xDA, CHR 0xDB, CHR 0xDC, CHR 0xDD, CHR 0xDE]"

definition lower_chars :: "char list" where
  "lower_chars = ''abcdefghijklmnopqrstuvwxyz'' @
     [CHR 0xE0, CHR 0xE1, CHR 0xE2, CHR 0xE3, CHR 0xE4, CHR 0xE5, CHR 0xE6, CHR 0xE7,
      CHR 0xE8, CHR 0xE9, CHR 0xEA, CHR 0xEB, CHR 0xEC, CHR 0xED, CHR 0xEE, CHR 0xEF,
      CHR 0xF0, CHR 0xF1, CHR 0xF2, CHR 0xF3, CHR 0xF4, CHR 0xF5, CHR 0xF6,
      CHR 0xF8, CHR 0xF9, CHR 0xFA, CHR 0xFB, CHR 0xFC, CHR 0xFD, CHR 0xFE]"

definition lower_char :: "char \<Rightarrow> char" where
  "lower_char c = (case map_of (zip upper_chars lower_chars) c of Some d \<Rightarrow> d | None \<Rightarrow> c)"

definition lower :: "string \<Rightarrow> string" where
  \<comment> \<open>\<^verbatim>\<open>s.lower()\<close>\<close>
  "lower s = map lower_char s"

fun py_in :: "string \<Rightarrow> string \<Rightarrow> bool" where
  \<comment> \<open>\<^verbatim>\<open>sub in s\<close> on strings: \<open>sub\<close> occurs in \<open>s\<close> as a contiguous run\<close>
  "py_in sub [] = (sub = [])"
| "py_in sub (c # s) = (prefix sub (c # s) \<or> py_in sub s)"

fun split_first :: "string \<Rightarrow> string \<Rightarrow> (string \<times> string) option" where
  \<comment> \<open>the text before and after the leftmost occurrence of \<open>sep\<close>, if there is one\<close>
  "split_first sep [] = (if sep = [] then Some ([], []) else None)"
| "split_first sep (c # s) =
     (if prefix sep (c # s) then Some ([], drop (length sep) (c # s))
      else map_option (\<lambda>(l, r). (c # l, r)) (split_first sep s))"

definition split1 :: "string \<Rightarrow> string \<Rightarrow> string list" where
  \<comment> \<open>\<^verbatim>\<open>s.split(sep, 1)\<close> for a non-empty \<open>sep\<close>: at most one split, at the leftmost occurrence\<close>
  "split1 sep s = (case split_first sep s of None \<Rightarrow> [s] | Some (l, r) \<Rightarrow> [l, r])"

fun split_char :: "char \<Rightarrow> string \<Rightarrow> string list" where
  \<comment> \<open>\<^verbatim>\<open>s.split(sep)\<close> for a one-character \<open>sep\<close>: a split at every occurrence\<close>
  "split_char sep [] = [[]]"
| "split_char sep (c # s) =
     (if c = sep then [] # split_char sep s
      else (case split_char sep s of [] \<Rightarrow> [[c]] | x # xs \<Rightarrow> (c # x) # xs))"

fun join :: "string \<Rightarrow> string list \<Rightarrow> string" where
  \<comment> \<open>\<^verbatim>\<open>sep.join(xs)\<close>\<close>
  "join sep [] = []"
| "join sep [x] = x"
| "join sep (x # y # ys) = x @ sep @ join sep (y # ys)"

section \<open>The built-in \<^verbatim>\<open>float()\<close> as a recogniser\<close>

text \<open>
  \<^verbatim>\<open>float(s)\<close> on a string raises \<^verbatim>\<open>ValueError\<close> unless \<open>s\<close>, with surrounding whitespace
  removed, is \<^verbatim>\<open>[sign] (floatnumber | "inf" | "infinity" | "nan")\<close>, the words in any case, where
  \<^verbatim>\<open>floatnumber ::= number [exponent]\<close>,
  \<^verbatim>\<open>number ::= [digitpart] "." digitpart | digitpart ["."]\<close>,
  \<^verbatim>\<open>exponent ::= ("e" | "E") [sign] digitpart\<close> and
  \<^verbatim>\<open>digitpart ::= digit (["_"] digit)*\<close>.
  Only the acceptance matters to \<^verbatim>\<open>is_number\<close>, never the value.
\<close>

definition is_digit :: "char \<Rightarrow> bool" where
  "is_digit c = (c \<in> set ''0123456789'')"

definition float_space_chars :: "char list" where
  \<comment> \<open>the whitespace \<^verbatim>\<open>float()\<close> removes at both ends (U+001C to U+001F are not among it)\<close>
  "float_space_chars = [CHR 0x09, CHR 0x0A, CHR 0x0B, CHR 0x0C, CHR 0x0D, CHR 0x20, CHR 0x85, CHR 0xA0]"

definition float_strip :: "string \<Rightarrow> string" where
  "float_strip s =
     rev (dropWhile (\<lambda>c. c \<in> set float_space_chars) (rev (dropWhile (\<lambda>c. c \<in> set float_space_chars) s)))"

fun digit_tail :: "string \<Rightarrow> string" where
  \<comment> \<open>after a digit: what is left once \<^verbatim>\<open>(["_"] digit)*\<close> is consumed\<close>
  "digit_tail [] = []"
| "digit_tail [c] = (if is_digit c then [] else [c])"
| "digit_tail (c # d # s) =
     (if is_digit c then digit_tail (d # s)
      else if c = CHR ''_'' \<and> is_digit d then digit_tail s
      else c # d # s)"

definition digitpart :: "string \<Rightarrow> string option" where
  \<comment> \<open>what is left after a leading \<^verbatim>\<open>digitpart\<close>, \<open>None\<close> when there is none\<close>
  "digitpart s = (case s of [] \<Rightarrow> None | c # r \<Rightarrow> if is_digit c then Some (digit_tail r) else None)"

definition skip_sign :: "string \<Rightarrow> string" where
  "skip_sign s = (case s of [] \<Rightarrow> [] | c # r \<Rightarrow> if c = CHR ''+'' \<or> c = CHR ''-'' then r else c # r)"

definition exponent_end :: "string \<Rightarrow> bool" where
  \<comment> \<open>\<^verbatim>\<open>[exponent]\<close> up to the end of the string\<close>
  "exponent_end s =
     (case s of [] \<Rightarrow> True
      | c # r \<Rightarrow> (c = CHR ''e'' \<or> c = CHR ''E'') \<and> digitpart (skip_sign r) = Some [])"

definition floatnumber :: "string \<Rightarrow> bool" where
  "floatnumber s =
     (case digitpart s of
        Some r \<Rightarrow>
          (case r of [] \<Rightarrow> True
           | c # r' \<Rightarrow>
               if c = CHR ''.'' then
                 (case digitpart r' of Some r'' \<Rightarrow> exponent_end r'' | None \<Rightarrow> exponent_end r')
               else exponent_end r)
      | None \<Rightarrow>
          (case s of [] \<Rightarrow> False
           | c # r' \<Rightarrow>
               c = CHR ''.'' \<and> (case digitpart r' of Some r'' \<Rightarrow> exponent_end r'' | None \<Rightarrow> False)))"

definition float_accepts :: "string \<Rightarrow> bool" where
  \<comment> \<open>\<^verbatim>\<open>float(s)\<close> returns, rather than raising \<^verbatim>\<open>ValueError\<close>\<close>
  "float_accepts s =
     (let t = skip_sign (float_strip s)
      in lower t \<in> set [''inf'', ''infinity'', ''nan''] \<or> floatnumber t)"

section \<open>The filter normaliser (\<^verbatim>\<open>_read\<close>, lines 78 to 113)\<close>

datatype error =
    InvalidFilter string  \<comment> \<open>\<^verbatim>\<open>{"error": f"Invalid filter '{filter_str}': unsupported operator"}\<close>\<close>
  | ConflictingSelectors  \<comment> \<open>\<^verbatim>\<open>{"error": "Provide only one of type_id or object_id."}\<close>\<close>
  | UnknownType string  \<comment> \<open>\<^verbatim>\<open>{"error": f"Unknown type_id '{type_id}'."}\<close>\<close>

definition supported_operators :: "string list" where
  "supported_operators = [''=='', ''!='', ''<='', ''>='', ''<'', ''>'', ''contains'']"

definition is_number :: "string \<Rightarrow> bool" where
  "is_number v = float_accepts v"

definition is_quoted :: "string \<Rightarrow> bool" where
  "is_quoted v = (length v \<ge> 2 \<and> hd v = last v \<and> hd v \<in> set [squote, dquote])"

definition quote_value :: "string \<Rightarrow> string" where
  \<comment> \<open>lines 107 to 109: \<^verbatim>\<open>value\<close> from \<^verbatim>\<open>raw_value\<close>\<close>
  "quote_value v = (if \<not> is_number v \<and> \<not> is_quoted v then [dquote] @ v @ [dquote] else v)"

fun find_operator :: "string list \<Rightarrow> string \<Rightarrow> (string \<times> string \<times> string) option" where
  \<comment> \<open>lines 94 to 102: the loop over the operators, left at the first operator that occurs;
      \<open>None\<close> is \<^verbatim>\<open>op\<close> still unset after the loop\<close>
  "find_operator [] filter_str = None"
| "find_operator (operator # ops) filter_str =
     (if py_in operator filter_str then
        (case split1 operator filter_str of
           [l, r] \<Rightarrow> Some (strip l, operator, strip r)
         | _ \<Rightarrow> None)
      else find_operator ops filter_str)"

fun normalize_loop :: "string list \<Rightarrow> string list \<Rightarrow> error + string list" where
  \<comment> \<open>lines 93 to 111: the loop over the filters, with \<^verbatim>\<open>normalized_filters\<close> as accumulator\<close>
  "normalize_loop [] normalized_filters = Inr normalized_filters"
| "normalize_loop (filter_str # rest) normalized_filters =
     (case find_operator supported_operators filter_str of
        None \<Rightarrow> Inl (InvalidFilter filter_str)
      | Some (attr, op, raw_value) \<Rightarrow>
          normalize_loop rest (normalized_filters @ [attr @ op @ quote_value raw_value]))"

definition normalize_filters :: "string list option \<Rightarrow> error + string option" where
  \<comment> \<open>lines 90 to 113: the value of \<^verbatim>\<open>query\<close>, or the error returned\<close>
  "normalize_filters filters =
     (case filters of
        None \<Rightarrow> Inr None
      | Some fs \<Rightarrow>
          if fs = [] then Inr None
          else (case normalize_loop fs [] of
                  Inl e \<Rightarrow> Inl e
                | Inr normalized_filters \<Rightarrow> Inr (Some (join '';'' normalized_filters))))"

section \<open>The query dispatcher (\<^verbatim>\<open>_read\<close>, lines 115 to 131, and \<^verbatim>\<open>read\<close>)\<close>

type_synonym params = "string \<rightharpoonup> string"

text \<open>
  The store is a parameter: \<open>store params\<close> is what the request and the decoding of its answer
  give back to \<^verbatim>\<open>_read\<close> (an exception of either passes through as well).
  A result is the list of the requests made to the store, and what is returned.
  What the functions print is left out.
\<close>

type_synonym 'r result = "params list \<times> (error + 'r)"

definition nonblank :: "string option \<Rightarrow> bool" where
  \<comment> \<open>\<^verbatim>\<open>x != None and str(x).strip() != ""\<close>\<close>
  "nonblank x = (case x of None \<Rightarrow> False | Some s \<Rightarrow> strip s \<noteq> [])"

definition set_param :: "string \<Rightarrow> string option \<Rightarrow> params \<Rightarrow> params" where
  \<comment> \<open>one of the four tests of lines 120 to 127: \<^verbatim>\<open>if (x != None) and str(x).strip() != "": params[key] = x\<close>\<close>
  "set_param key x params = (case x of None \<Rightarrow> params | Some s \<Rightarrow> if strip s \<noteq> [] then params(key \<mapsto> s) else params)"

definition build_params :: "string option \<Rightarrow> string option \<Rightarrow> string option \<Rightarrow> string option \<Rightarrow> params" where
  \<comment> \<open>lines 119 to 127\<close>
  "build_params type_id object_id query attributes =
     set_param ''attrs'' attributes
       (set_param ''q'' query
          (set_param ''id'' object_id
             (set_param ''type'' type_id Map.empty)))"

definition read_impl ::
  "(params \<Rightarrow> 'r) \<Rightarrow> string option \<Rightarrow> string option \<Rightarrow> string option \<Rightarrow> string list option \<Rightarrow> 'r result" where
  \<comment> \<open>\<^verbatim>\<open>_read\<close>\<close>
  "read_impl store type_id object_id attributes filters =
     (case normalize_filters filters of
        Inl e \<Rightarrow> ([], Inl e)
      | Inr query \<Rightarrow>
          (let params = build_params type_id object_id query attributes
           in ([params], Inr (store params))))"

section \<open>The type catalog and the keyword resolver (\<^verbatim>\<open>_get_types\<close>)\<close>

record attribute =
  attr_name :: string
  attr_description :: "string option"  \<comment> \<open>\<open>None\<close>: the key is missing\<close>

record type_data =
  type_description :: "string option"
  type_attributes :: "attribute list option"

text \<open>
  An entry of \<^verbatim>\<open>data_space["data_space"]["types"]\<close> is a dictionary from type names to type
  data; its items are listed in the dictionary's order.
\<close>

type_synonym types_entry = "(string \<times> type_data) list"

type_synonym match_state = "(string \<times> type_data) list \<times> string set"

definition description_of :: "type_data \<Rightarrow> string" where
  \<comment> \<open>\<^verbatim>\<open>type_data.get("description", "")\<close>\<close>
  "description_of td = (case type_description td of None \<Rightarrow> [] | Some d \<Rightarrow> d)"

definition attributes_of :: "type_data \<Rightarrow> attribute list" where
  \<comment> \<open>\<^verbatim>\<open>type_data.get("attributes", [])\<close>\<close>
  "attributes_of td = (case type_attributes td of None \<Rightarrow> [] | Some as \<Rightarrow> as)"

definition attr_description_of :: "attribute \<Rightarrow> string" where
  \<comment> \<open>\<^verbatim>\<open>attribute.get("description", "")\<close>\<close>
  "attr_description_of a = (case attr_description a of None \<Rightarrow> [] | Some d \<Rightarrow> d)"

definition any_token_in :: "string list \<Rightarrow> string \<Rightarrow> bool" where
  \<comment> \<open>\<^verbatim>\<open>any(token in description for token in requested_attributes)\<close>\<close>
  "any_token_in requested_attributes d = list_ex (\<lambda>token. py_in token d) requested_attributes"

definition add_match :: "string \<Rightarrow> type_data \<Rightarrow> match_state \<Rightarrow> match_state" where
  \<comment> \<open>lines 46 to 48 and 53 to 55; a match is the one-item dictionary \<^verbatim>\<open>{type_name: type_data}\<close>\<close>
  "add_match type_name td st =
     (case st of (matches, seen) \<Rightarrow>
        if type_name \<notin> seen then (matches @ [(type_name, td)], insert type_name seen) else st)"

fun attributes_loop :: "string list \<Rightarrow> string \<Rightarrow> type_data \<Rightarrow> attribute list \<Rightarrow> match_state \<Rightarrow> match_state" where
  \<comment> \<open>lines 50 to 56, left by \<^verbatim>\<open>break\<close> at the first attribute that matches\<close>
  "attributes_loop req type_name td [] st = st"
| "attributes_loop req type_name td (a # rest) st =
     (if any_token_in req (lower (attr_description_of a))
      then add_match type_name td st
      else attributes_loop req type_name td rest st)"

fun items_loop :: "string list \<Rightarrow> types_entry \<Rightarrow> match_state \<Rightarrow> match_state" where
  \<comment> \<open>lines 43 to 56\<close>
  "items_loop req [] st = st"
| "items_loop req ((type_name, td) # rest) st =
     (if any_token_in req (lower (description_of td))
      then items_loop req rest (add_match type_name td st)
      else items_loop req rest
             (attributes_loop req type_name td (attributes_of td) st))"

fun entries_loop :: "string list \<Rightarrow> types_entry list \<Rightarrow> match_state \<Rightarrow> match_state" where
  \<comment> \<open>lines 42 to 56\<close>
  "entries_loop req [] st = st"
| "entries_loop req (e # es) st = entries_loop req es (items_loop req e st)"

definition requested_attributes :: "string \<Rightarrow> string list" where
  \<comment> \<open>lines 31 to 35\<close>
  "requested_attributes keywords =
     map (\<lambda>attr. lower (strip attr)) (filter (\<lambda>attr. strip attr \<noteq> []) (split_char CHR '','' keywords))"

definition get_types_impl :: "types_entry list \<Rightarrow> string option \<Rightarrow> (string \<times> type_data) list" where
  \<comment> \<open>\<^verbatim>\<open>_get_types\<close>, the catalog \<^verbatim>\<open>data_space["data_space"]["types"]\<close> as a parameter\<close>
  "get_types_impl types_entries keywords =
     (case keywords of
        None \<Rightarrow> []
      | Some k \<Rightarrow>
          if strip k = [] then []
          else (let req = requested_attributes k
                in if req = [] then [] else fst (entries_loop req types_entries ([], {}))))"

definition get_types :: "types_entry list \<Rightarrow> string \<Rightarrow> (string \<times> type_data) list" where
  \<comment> \<open>the tool \<^verbatim>\<open>get_types\<close>, lines 142 to 146\<close>
  "get_types types_entries keywords = get_types_impl types_entries (Some keywords)"

definition type_exists :: "types_entry list \<Rightarrow> string \<Rightarrow> bool" where
  \<comment> \<open>line 168: \<^verbatim>\<open>any(type_id in entry for entry in types_entries)\<close>, on the keys of each entry\<close>
  "type_exists types_entries type_id = list_ex (\<lambda>entry. type_id \<in> set (map fst entry)) types_entries"

definition read ::
  "types_entry list \<Rightarrow> (params \<Rightarrow> 'r) \<Rightarrow> string option \<Rightarrow> string option \<Rightarrow> string option \<Rightarrow>
     string list option \<Rightarrow> 'r result" where
  \<comment> \<open>the tool \<^verbatim>\<open>read\<close>, lines 156 to 173\<close>
  "read types_entries store type_id object_id attributes filters =
     (if nonblank type_id \<and> nonblank object_id then ([], Inl ConflictingSelectors)
      else (case (if nonblank type_id then type_id else None) of
              Some t \<Rightarrow>
                if \<not> type_exists types_entries t then ([], Inl (UnknownType t))
                else read_impl store type_id object_id attributes filters
            | None \<Rightarrow> read_impl store type_id object_id attributes filters))"

section \<open>Notions of the specification, and sample data\<close>

definition spec_has_operator :: "string \<Rightarrow> bool" where
  \<comment> \<open>the filter string contains at least one supported operator\<close>
  "spec_has_operator f \<longleftrightarrow> (\<exists>op \<in> set supported_operators. sublist op f)"

definition sample_catalog :: "types_entry list" where
  "sample_catalog =
     [[(''plug'', \<lparr>type_description = Some ''A smart plug that meters power'',
                   type_attributes = Some [\<lparr>attr_name = ''consumption'', attr_description = Some ''Consumption in kWh''\<rparr>]\<rparr>)],
      [(''thermometer'', \<lparr>type_description = Some ''Measures the air'',
                   type_attributes = Some [\<lparr>attr_name = ''temperature'', attr_description = Some ''Temperature in Celsius''\<rparr>]\<rparr>)]]"

definition sample_store :: "params \<Rightarrow> string list" where
  "sample_store p = (case p ''type'' of None \<Rightarrow> [] | Some t \<Rightarrow> [t])"

definition spec_first_split :: "string \<Rightarrow> string \<Rightarrow> string \<Rightarrow> string \<Rightarrow> bool" where
  \<comment> \<open>\<open>l\<close> and \<open>r\<close> are the text left and right of the first occurrence of \<open>op\<close> in \<open>f\<close>\<close>
  "spec_first_split op f l r \<longleftrightarrow> f = l @ op @ r \<and> (\<forall>p q. f = p @ op @ q \<longrightarrow> length l \<le> length p)"

definition spec_earliest_operator :: "string \<Rightarrow> string \<Rightarrow> bool" where
  \<comment> \<open>\<open>op\<close> is the earliest operator, in the priority order, that occurs in \<open>f\<close>\<close>
  "spec_earliest_operator f op \<longleftrightarrow>
     (\<exists>k < length supported_operators. op = supported_operators ! k \<and> sublist op f \<and>
        (\<forall>j < k. \<not> sublist (supported_operators ! j) f))"

definition spec_clause :: "string \<Rightarrow> string \<Rightarrow> bool" where
  \<comment> \<open>\<open>c\<close> is the clause rendered from \<open>f\<close>: trimmed attribute, operator, value\<close>
  "spec_clause f c \<longleftrightarrow>
     (\<exists>op l r. spec_earliest_operator f op \<and> spec_first_split op f l r \<and>
        c = strip l @ op @ quote_value (strip r))"

definition spec_numeric_pattern :: "string \<Rightarrow> bool" where
  \<comment> \<open>the whole value matches \<^verbatim>\<open>-?[0-9]+(.[0-9]+)?\<close>, the dot literal: the specification's numeric pattern\<close>
  "spec_numeric_pattern v =
     (let u = (if v \<noteq> [] \<and> hd v = CHR ''-'' then tl v else v);
          rest = dropWhile is_digit u
      in takeWhile is_digit u \<noteq> [] \<and>
         (rest = [] \<or> (hd rest = CHR ''.'' \<and> tl rest \<noteq> [] \<and> list_all is_digit (tl rest))))"

definition spec_prequoted :: "string \<Rightarrow> bool" where
  \<comment> \<open>the first and the last character are the same quote character\<close>
  "spec_prequoted v \<longleftrightarrow> v \<noteq> [] \<and> hd v = last v \<and> (hd v = squote \<or> hd v = dquote)"

definition spec_type_matches :: "string list \<Rightarrow> type_data \<Rightarrow> bool" where
  \<comment> \<open>the lower-cased description of the type, or of one of its attributes, contains a keyword\<close>
  "spec_type_matches kws td \<longleftrightarrow>
     (\<exists>k \<in> set kws. sublist k (lower (description_of td))) \<or>
     (\<exists>a \<in> set (attributes_of td). \<exists>k \<in> set kws. sublist k (lower (attr_description_of a)))"

definition spec_keywords :: "string \<Rightarrow> string list" where
  \<comment> \<open>the keywords: the comma-separated elements, trimmed and lower-cased, that are not empty\<close>
  "spec_keywords keywords =
     filter (\<lambda>k. k \<noteq> []) (map (\<lambda>k. lower (strip k)) (split_char CHR '','' keywords))"

text \<open>Each type name once, at its first place.\<close>

fun spec_once_each :: "(string \<times> 'a) list \<Rightarrow> (string \<times> 'a) list" where
  "spec_once_each [] = []"
| "spec_once_each ((n, d) # xs) = (n, d) # spec_once_each (filter (\<lambda>(m, _). m \<noteq> n) xs)"

text \<open>The types of the catalog, in catalog order.\<close>

definition catalog_items :: "types_entry list \<Rightarrow> (string \<times> type_data) list" where
  "catalog_items types_entries = concat types_entries"

definition clause_of :: "string \<Rightarrow> string" where
  \<comment> \<open>what the filter loop appends for \<open>f\<close> (line 111), when \<open>f\<close> has an operator\<close>
  "clause_of f = (case find_operator supported_operators f of
                    None \<Rightarrow> []
                  | Some (attr, op, raw_value) \<Rightarrow> attr @ op @ quote_value raw_value)"

definition spec_reparsable :: "string \<Rightarrow> bool" where
  \<comment> \<open>\<open>f\<close> has no \<open>;\<close> and, when it is split at \<open>==\<close>, its trimmed attribute does not end in \<open>=\<close>\<close>
  "spec_reparsable f \<longleftrightarrow>
     CHR '';'' \<notin> set f \<and>
     (\<forall>a v. find_operator supported_operators f = Some (a, ''=='', v) \<longrightarrow> a = [] \<or> last a \<noteq> CHR ''='')"

section \<open>Strings: occurrences and the leftmost split\<close>

lemma py_in_sublist: "py_in sub s \<longleftrightarrow> sublist sub s"
  by (induction s) (auto simp: sublist_Cons_right)

lemma split_first_None: "split_first sep s = None \<longleftrightarrow> \<not> sublist sep s"
  by (induction s) (auto simp: sublist_Cons_right)

lemma split_first_decomp: "split_first sep s = Some (l, r) \<Longrightarrow> s = l @ sep @ r"
proof (induction s arbitrary: l)
  case Nil
  then show ?case by (simp split: if_splits)
next
  case (Cons c s)
  show ?case
  proof (cases "prefix sep (c # s)")
    case True
    with Cons.prems have "l = []" "r = drop (length sep) (c # s)" by auto
    moreover from True obtain t where "c # s = sep @ t" by (auto simp: prefix_def)
    ultimately show ?thesis by simp
  next
    case False
    with Cons.prems obtain l' where "split_first sep s = Some (l', r)" "l = c # l'"
      by (auto split: prod.splits)
    with Cons.IH show ?thesis by simp
  qed
qed

lemma split_first_leftmost:
  "split_first sep s = Some (l, r) \<Longrightarrow> s = p @ sep @ q \<Longrightarrow> length l \<le> length p"
proof (induction s arbitrary: l p)
  case Nil
  then show ?case by (simp split: if_splits)
next
  case (Cons c s)
  show ?case
  proof (cases "prefix sep (c # s)")
    case True
    with Cons.prems(1) have "l = []" by simp
    then show ?thesis by simp
  next
    case False
    with Cons.prems(1) obtain l' where l': "split_first sep s = Some (l', r)" "l = c # l'"
      by (auto split: prod.splits)
    from False Cons.prems(2) have "p \<noteq> []" by (auto simp: prefix_def)
    then obtain p' where "p = c # p'" "s = p' @ sep @ q"
      using Cons.prems(2) by (cases p) auto
    with Cons.IH[OF l'(1)] l'(2) show ?thesis by simp
  qed
qed

section \<open>The operator loop and the filter loop\<close>

lemma find_operator_None:
  "(find_operator ops f = None) \<longleftrightarrow> (\<forall>op \<in> set ops. \<not> sublist op f)"
proof (induction ops)
  case Nil
  then show ?case by simp
next
  case (Cons operator ops)
  show ?case
  proof (cases "sublist operator f")
    case True
    then obtain l r where "split_first operator f = Some (l, r)"
      using split_first_None[of operator f] by (cases "split_first operator f") auto
    with True show ?thesis by (simp add: py_in_sublist split1_def)
  next
    case False
    with Cons.IH show ?thesis by (simp add: py_in_sublist)
  qed
qed

lemma find_operator_None_spec:
  "(find_operator supported_operators f = None) \<longleftrightarrow> \<not> spec_has_operator f"
  by (simp add: find_operator_None spec_has_operator_def)

lemma normalize_loop_bad:
  "find (\<lambda>f. \<not> spec_has_operator f) fs = Some bad \<Longrightarrow> normalize_loop fs acc = Inl (InvalidFilter bad)"
proof (induction fs arbitrary: acc)
  case Nil
  then show ?case by simp
next
  case (Cons f fs)
  show ?case
  proof (cases "spec_has_operator f")
    case True
    then obtain a op v where "find_operator supported_operators f = Some (a, op, v)"
      using find_operator_None_spec[of f] by (cases "find_operator supported_operators f") auto
    with True Cons show ?thesis by simp
  next
    case False
    with Cons.prems have "bad = f" by simp
    moreover from False have "find_operator supported_operators f = None"
      by (simp add: find_operator_None_spec)
    ultimately show ?thesis by simp
  qed
qed

section \<open>Selectors\<close>

lemma read_no_conflict:
  "\<not> (nonblank tid \<and> nonblank oid) \<Longrightarrow> (\<And>t. tid = Some t \<Longrightarrow> nonblank tid \<Longrightarrow> type_exists cat t) \<Longrightarrow>
   read cat store tid oid attrs fs = read_impl store tid oid attrs fs"
  by (cases tid) (auto simp: read_def)

section \<open>Clauses\<close>

lemma find_operator_Some:
  "find_operator ops f = Some (a, op, v) \<Longrightarrow>
   \<exists>k l r. k < length ops \<and> op = ops ! k \<and> sublist op f \<and> (\<forall>j < k. \<not> sublist (ops ! j) f) \<and>
     spec_first_split op f l r \<and> a = strip l \<and> v = strip r"
proof (induction ops)
  case Nil
  then show ?case by simp
next
  case (Cons operator ops)
  show ?case
  proof (cases "sublist operator f")
    case True
    then obtain l r where lr: "split_first operator f = Some (l, r)"
      using split_first_None[of operator f] by (cases "split_first operator f") auto
    with True Cons.prems have eq: "a = strip l" "op = operator" "v = strip r"
      by (simp_all add: py_in_sublist split1_def)
    have "spec_first_split operator f l r"
      unfolding spec_first_split_def
      using split_first_decomp[OF lr] split_first_leftmost[OF lr] by blast
    with True eq have "0 < length (operator # ops) \<and> op = (operator # ops) ! 0 \<and> sublist op f \<and>
        (\<forall>j < (0::nat). \<not> sublist ((operator # ops) ! j) f) \<and> spec_first_split op f l r \<and>
        a = strip l \<and> v = strip r"
      by simp
    then show ?thesis by blast
  next
    case False
    with Cons.prems have "find_operator ops f = Some (a, op, v)" by (simp add: py_in_sublist)
    from Cons.IH[OF this] obtain k l r where k: "k < length ops" "op = ops ! k" "sublist op f"
      "\<forall>j < k. \<not> sublist (ops ! j) f" "spec_first_split op f l r" "a = strip l" "v = strip r"
      by blast
    have "\<forall>j < Suc k. \<not> sublist ((operator # ops) ! j) f"
    proof (intro allI impI)
      fix j assume "j < Suc k"
      then show "\<not> sublist ((operator # ops) ! j) f"
        using False k(4) by (cases j) auto
    qed
    with k have "Suc k < length (operator # ops) \<and> op = (operator # ops) ! Suc k \<and> sublist op f \<and>
        (\<forall>j < Suc k. \<not> sublist ((operator # ops) ! j) f) \<and> spec_first_split op f l r \<and>
        a = strip l \<and> v = strip r"
      by simp
    then show ?thesis by blast
  qed
qed

lemma find_operator_clause:
  "find_operator supported_operators f = Some (a, op, v) \<Longrightarrow> spec_clause f (a @ op @ quote_value v)"
  unfolding spec_clause_def spec_earliest_operator_def
  by (drule find_operator_Some) blast

lemma normalize_loop_ok:
  "\<forall>f \<in> set fs. spec_has_operator f \<Longrightarrow>
   \<exists>cs. list_all2 spec_clause fs cs \<and> normalize_loop fs acc = Inr (acc @ cs)"
proof (induction fs arbitrary: acc)
  case Nil
  then show ?case by simp
next
  case (Cons f fs)
  from Cons.prems have "spec_has_operator f" by simp
  then obtain a op v where fo: "find_operator supported_operators f = Some (a, op, v)"
    using find_operator_None_spec[of f] by (cases "find_operator supported_operators f") auto
  from Cons.prems have "\<forall>f \<in> set fs. spec_has_operator f" by simp
  from Cons.IH[OF this, of "acc @ [a @ op @ quote_value v]"]
  obtain cs where cs: "list_all2 spec_clause fs cs"
    "normalize_loop fs (acc @ [a @ op @ quote_value v]) = Inr ((acc @ [a @ op @ quote_value v]) @ cs)"
    by blast
  have "list_all2 spec_clause (f # fs) ((a @ op @ quote_value v) # cs)"
    using cs(1) find_operator_clause[OF fo] by simp
  moreover have "normalize_loop (f # fs) acc = Inr (acc @ (a @ op @ quote_value v) # cs)"
    using fo cs(2) by simp
  ultimately show ?case by blast
qed

section \<open>The normaliser's result and the parameter set\<close>

lemma find_Some_first:
  "x \<in> set xs \<Longrightarrow> P x \<Longrightarrow> \<exists>y. find P xs = Some y \<and> P y \<and> y \<in> set xs"
  by (cases "find P xs") (auto simp: find_None_iff find_Some_iff)

lemma normalize_error_kind: "normalize_filters fs = Inl e \<Longrightarrow> \<exists>f. e = InvalidFilter f"
proof (cases fs)
  case None
  assume "normalize_filters fs = Inl e"
  with None show ?thesis by (simp add: normalize_filters_def)
next
  case (Some fl)
  assume a: "normalize_filters fs = Inl e"
  show ?thesis
  proof (cases "find (\<lambda>f. \<not> spec_has_operator f) fl")
    case None
    then have "\<forall>f \<in> set fl. spec_has_operator f" by (auto simp: find_None_iff)
    from normalize_loop_ok[OF this, of "[]"] a Some show ?thesis
      by (auto simp: normalize_filters_def split: if_splits)
  next
    case (Some bad)
    from normalize_loop_bad[OF this, of "[]"] a \<open>fs = Some fl\<close> show ?thesis
      by (auto simp: normalize_filters_def split: if_splits)
  qed
qed

lemma normalize_ok:
  "(\<And>fl f. fs = Some fl \<Longrightarrow> f \<in> set fl \<Longrightarrow> spec_has_operator f) \<Longrightarrow> \<exists>q. normalize_filters fs = Inr q"
proof (cases fs)
  case None
  then show ?thesis by (simp add: normalize_filters_def)
next
  case (Some fl)
  assume "\<And>fl f. fs = Some fl \<Longrightarrow> f \<in> set fl \<Longrightarrow> spec_has_operator f"
  with Some have "\<forall>f \<in> set fl. spec_has_operator f" by blast
  from normalize_loop_ok[OF this, of "[]"] Some show ?thesis
    by (auto simp: normalize_filters_def)
qed

lemma set_param_apply:
  "set_param key x p k = (if k = key \<and> nonblank x then x else p k)"
  by (cases x) (auto simp: set_param_def nonblank_def)

lemma build_params_type: "build_params tid oid q attrs ''type'' = (if nonblank tid then tid else None)"
  by (simp add: build_params_def set_param_apply)

lemma build_params_id: "build_params tid oid q attrs ''id'' = (if nonblank oid then oid else None)"
  by (simp add: build_params_def set_param_apply)

lemma build_params_q: "build_params tid oid q attrs ''q'' = (if nonblank q then q else None)"
  by (simp add: build_params_def set_param_apply)

lemma build_params_attrs: "build_params tid oid q attrs ''attrs'' = (if nonblank attrs then attrs else None)"
  by (simp add: build_params_def set_param_apply)

lemma build_params_dom: "dom (build_params tid oid q attrs) \<subseteq> {''type'', ''id'', ''q'', ''attrs''}"
  by (auto simp: build_params_def set_param_apply dom_def split: if_splits)

lemma build_params_nonblank: "build_params tid oid q attrs k = Some v \<Longrightarrow> strip v \<noteq> []"
  by (auto simp: build_params_def set_param_apply nonblank_def split: if_splits)

lemma read_success:
  assumes "read cat store tid oid attrs fs = (calls, Inr res)"
  shows "\<exists>q. normalize_filters fs = Inr q \<and> calls = [build_params tid oid q attrs] \<and>
              res = store (build_params tid oid q attrs) \<and> \<not> (nonblank tid \<and> nonblank oid)"
proof -
  from assms have nc: "\<not> (nonblank tid \<and> nonblank oid)"
    by (auto simp: read_def)
  with assms have "read_impl store tid oid attrs fs = (calls, Inr res)"
    by (auto simp: read_def split: option.splits if_splits)
  with nc show ?thesis
    by (auto simp: read_impl_def Let_def split: sum.splits)
qed

section \<open>Values: numbers and quotes\<close>

lemma strip_chars_id:
  "s \<noteq> [] \<Longrightarrow> \<not> P (hd s) \<Longrightarrow> \<not> P (last s) \<Longrightarrow> rev (dropWhile P (rev (dropWhile P s))) = s"
proof -
  assume a: "s \<noteq> []" "\<not> P (hd s)" "\<not> P (last s)"
  then have "dropWhile P s = s" by (cases s) auto
  moreover from a have "dropWhile P (rev s) = rev s"
    by (cases "rev s") (auto simp: last_rev[symmetric] simp del: last_rev)
  ultimately show ?thesis by simp
qed

lemma digit_tail_digit: "is_digit c \<Longrightarrow> digit_tail (c # s) = digit_tail s"
  by (cases s) simp_all

lemma digit_tail_digits: "list_all is_digit ds \<Longrightarrow> digit_tail (ds @ r) = digit_tail r"
  by (induction ds) (simp_all add: digit_tail_digit)

lemma digit_tail_stop: "\<not> is_digit c \<Longrightarrow> c \<noteq> CHR ''_'' \<Longrightarrow> digit_tail (c # s) = c # s"
  by (cases s) simp_all

lemma digitpart_digits:
  "ds \<noteq> [] \<Longrightarrow> list_all is_digit ds \<Longrightarrow> digitpart (ds @ r) = Some (digit_tail r)"
  by (cases ds) (simp_all add: digitpart_def digit_tail_digits)

lemma is_digit_facts:
  "is_digit c \<Longrightarrow> c \<noteq> CHR ''-'' \<and> c \<noteq> CHR ''+'' \<and> c \<notin> set float_space_chars \<and> c \<noteq> CHR ''.''"
  by (auto simp: is_digit_def float_space_chars_def)

lemma takeWhile_all: "list_all P (takeWhile P xs)"
  by (induction xs) simp_all

lemma digitpart_takeWhile:
  "takeWhile is_digit u \<noteq> [] \<Longrightarrow> digitpart u = Some (digit_tail (dropWhile is_digit u))"
  using digitpart_digits[of "takeWhile is_digit u" "dropWhile is_digit u"] takeWhile_all[of is_digit u]
  by simp

lemma floatnumber_pattern:
  assumes "takeWhile is_digit u \<noteq> []"
    and "dropWhile is_digit u = [] \<or>
         (hd (dropWhile is_digit u) = CHR ''.'' \<and> tl (dropWhile is_digit u) \<noteq> [] \<and>
          list_all is_digit (tl (dropWhile is_digit u)))"
  shows "floatnumber u"
proof -
  let ?rest = "dropWhile is_digit u"
  note dp = digitpart_takeWhile[OF assms(1)]
  from assms(2) show ?thesis
  proof
    assume r: "?rest = []"
    have "digit_tail ?rest = []" by (simp only: r digit_tail.simps)
    with dp have "digitpart u = Some []" by (simp only:)
    then show ?thesis by (simp add: floatnumber_def)
  next
    assume r: "hd ?rest = CHR ''.'' \<and> tl ?rest \<noteq> [] \<and> list_all is_digit (tl ?rest)"
    then obtain fs where fs: "?rest = CHR ''.'' # fs" "fs \<noteq> []" "list_all is_digit fs"
      by (cases ?rest) auto
    have "digit_tail ?rest = CHR ''.'' # fs"
      by (simp only: fs(1)) (simp add: digit_tail_stop is_digit_def)
    with dp have d1: "digitpart u = Some (CHR ''.'' # fs)" by (simp only:)
    from digitpart_digits[OF fs(2,3), of "[]"] have d2: "digitpart fs = Some []" by simp
    from d1 d2 show ?thesis by (simp add: floatnumber_def exponent_end_def)
  qed
qed

lemma numeric_pattern_is_number:
  assumes "spec_numeric_pattern v"
  shows "is_number v"
proof -
  define u where "u = (if v \<noteq> [] \<and> hd v = CHR ''-'' then tl v else v)"
  from assms have tw: "takeWhile is_digit u \<noteq> []"
    and dw: "dropWhile is_digit u = [] \<or>
         (hd (dropWhile is_digit u) = CHR ''.'' \<and> tl (dropWhile is_digit u) \<noteq> [] \<and>
          list_all is_digit (tl (dropWhile is_digit u)))"
    by (simp_all add: spec_numeric_pattern_def Let_def u_def)
  have fl: "floatnumber u" by (rule floatnumber_pattern[OF tw dw])
  from tw obtain d u' where du: "u = d # u'" "is_digit d" by (cases u) (auto split: if_splits)
  have lastd: "is_digit (last u)"
  proof -
    have u: "u = takeWhile is_digit u @ dropWhile is_digit u" by simp
    from dw show ?thesis
    proof
      assume "dropWhile is_digit u = []"
      then have "\<forall>x \<in> set u. is_digit x" by (simp add: dropWhile_eq_Nil_conv)
      with du show ?thesis by (metis last_in_set list.discI)
    next
      assume a: "hd (dropWhile is_digit u) = CHR ''.'' \<and> tl (dropWhile is_digit u) \<noteq> [] \<and>
          list_all is_digit (tl (dropWhile is_digit u))"
      then obtain fs where fs: "dropWhile is_digit u = CHR ''.'' # fs" "fs \<noteq> []" "list_all is_digit fs"
        by (cases "dropWhile is_digit u") auto
      have "last u = last (takeWhile is_digit u @ dropWhile is_digit u)" by simp
      also have "\<dots> = last fs" using fs by (simp del: takeWhile_dropWhile_id)
      finally show ?thesis using fs by (simp add: list_all_iff)
    qed
  qed
  have vne: "v \<noteq> []" using du by (auto simp: u_def split: if_splits)
  have hdv: "hd v \<notin> set float_space_chars"
    using du is_digit_facts[of d] by (cases v) (auto simp: u_def float_space_chars_def split: if_splits)
  have lastv: "last v = last u" using du by (cases v) (auto simp: u_def split: if_splits)
  have "last v \<notin> set float_space_chars" using lastd lastv is_digit_facts by simp
  with vne hdv have fs: "float_strip v = v"
    unfolding float_strip_def by (intro strip_chars_id) simp_all
  have "skip_sign v = u"
    using du is_digit_facts[of d] by (cases v) (auto simp: u_def skip_sign_def split: if_splits)
  with fs fl show ?thesis by (simp add: is_number_def float_accepts_def)
qed

lemma quote_value_idem_cases:
  "(is_number v \<longrightarrow> quote_value v = v) \<and> (is_quoted v \<longrightarrow> quote_value v = v) \<and>
   (\<not> is_number v \<and> \<not> is_quoted v \<longrightarrow> quote_value v = [dquote] @ v @ [dquote])"
  by (simp add: quote_value_def)

lemma is_quoted_spec: "is_quoted v \<longleftrightarrow> 2 \<le> length v \<and> spec_prequoted v"
  by (cases v) (auto simp: is_quoted_def spec_prequoted_def)

section \<open>The keyword resolver's loops\<close>

lemma any_token_in_iff: "any_token_in req s \<longleftrightarrow> (\<exists>k \<in> set req. sublist k s)"
  by (simp add: any_token_in_def list_ex_iff py_in_sublist)

lemma attributes_loop_eq:
  "attributes_loop req n td as st =
     (if \<exists>a \<in> set as. any_token_in req (lower (attr_description_of a)) then add_match n td st else st)"
  by (induction as) auto

lemma item_step:
  "items_loop req ((n, td) # rest) st =
     items_loop req rest (if spec_type_matches req td then add_match n td st else st)"
  by (auto simp: attributes_loop_eq spec_type_matches_def any_token_in_iff)

lemma items_loop_append: "items_loop req (xs @ ys) st = items_loop req ys (items_loop req xs st)"
  by (induction req xs st rule: items_loop.induct) simp_all

lemma entries_loop_concat: "entries_loop req es st = items_loop req (concat es) st"
  by (induction es arbitrary: st) (simp_all add: items_loop_append)

lemma filter_names:
  "filter (\<lambda>(m, _). m \<noteq> n) (filter (\<lambda>(m, _). m \<notin> S) xs) = filter (\<lambda>(m, _). m \<notin> insert n S) xs"
  by (induction xs) auto

lemma items_loop_result:
  "fst (items_loop req items (ms, S)) =
     ms @ spec_once_each (filter (\<lambda>(m, _). m \<notin> S) (filter (\<lambda>(m, td). spec_type_matches req td) items))"
proof (induction items arbitrary: ms S)
  case Nil
  then show ?case by simp
next
  case (Cons x items)
  obtain n td where x: "x = (n, td)" by (cases x)
  let ?P = "\<lambda>(m::string, td). spec_type_matches req td"
  show ?case
  proof (cases "spec_type_matches req td \<and> n \<notin> S")
    case True
    have step: "items_loop req (x # items) (ms, S) = items_loop req items (ms @ [(n, td)], insert n S)"
      unfolding x item_step using True by (simp add: add_match_def)
    have rhs: "spec_once_each (filter (\<lambda>(m, _). m \<notin> S) (filter ?P (x # items))) =
        (n, td) # spec_once_each (filter (\<lambda>(m, _). m \<notin> insert n S) (filter ?P items))"
      using True filter_names[of n S "filter ?P items"] by (simp add: x del: filter_filter)
    show ?thesis
      by (simp only: step rhs Cons.IH[of "ms @ [(n, td)]" "insert n S"]) simp
  next
    case False
    have step: "items_loop req (x # items) (ms, S) = items_loop req items (ms, S)"
      unfolding x item_step using False by (auto simp: add_match_def)
    have rhs: "filter (\<lambda>(m, _). m \<notin> S) (filter ?P (x # items)) =
        filter (\<lambda>(m, _). m \<notin> S) (filter ?P items)"
      using False by (auto simp: x)
    show ?thesis
      by (simp only: step rhs Cons.IH[of ms S])
  qed
qed

lemma once_each_subset: "set (spec_once_each xs) \<subseteq> set xs"
  by (induction xs rule: spec_once_each.induct) auto

lemma once_each_distinct: "distinct (map fst (spec_once_each xs))"
proof (induction xs rule: spec_once_each.induct)
  case 1
  then show ?case by simp
next
  case (2 n d xs)
  have "n \<notin> fst ` set (spec_once_each (filter (\<lambda>(m, _). m \<noteq> n) xs))"
    using once_each_subset[of "filter (\<lambda>(m, _). m \<noteq> n) xs"] by auto
  with 2 show ?case by simp
qed

lemma once_each_id: "distinct (map fst xs) \<Longrightarrow> spec_once_each xs = xs"
proof (induction xs rule: spec_once_each.induct)
  case 1
  then show ?case by simp
next
  case (2 n d xs)
  then have "filter (\<lambda>(m, _). m \<noteq> n) xs = xs"
    by (force simp: filter_id_conv)
  with 2 show ?case by simp
qed

lemma strip_Nil_iff: "strip s = [] \<longleftrightarrow> (\<forall>c \<in> set s. is_space c)"
proof
  assume "strip s = []"
  then have a: "\<forall>x \<in> set (dropWhile is_space s). is_space x"
    by (simp add: strip_def dropWhile_eq_Nil_conv)
  have "dropWhile is_space s = []"
  proof (rule ccontr)
    assume n: "dropWhile is_space s \<noteq> []"
    then have "\<not> is_space (hd (dropWhile is_space s))" by (rule hd_dropWhile)
    with a n show False by simp
  qed
  then show "\<forall>c \<in> set s. is_space c" by (simp add: dropWhile_eq_Nil_conv)
next
  assume "\<forall>c \<in> set s. is_space c"
  then have "dropWhile is_space s = []" by (simp add: dropWhile_eq_Nil_conv)
  then show "strip s = []" by (simp only: strip_def) simp
qed

lemma split_char_no_sep: "sep \<notin> set s \<Longrightarrow> split_char sep s = [s]"
  by (induction s) auto

lemma blank_requested_attributes: "strip kw = [] \<Longrightarrow> requested_attributes kw = []"
proof -
  assume a: "strip kw = []"
  then have "\<forall>c \<in> set kw. is_space c" by (simp add: strip_Nil_iff)
  moreover have "\<not> is_space CHR '',''" by (simp add: is_space_def whitespace_chars_def)
  ultimately have "CHR '','' \<notin> set kw" by blast
  then have "split_char CHR '','' kw = [kw]" by (rule split_char_no_sep)
  with a show ?thesis by (simp add: requested_attributes_def)
qed

lemma get_types_eq:
  "get_types cat kw =
     spec_once_each (filter (\<lambda>(n, td). spec_type_matches (requested_attributes kw) td) (catalog_items cat))"
proof (cases "requested_attributes kw = []")
  case True
  then have "get_types cat kw = []"
    by (simp add: get_types_def get_types_impl_def Let_def)
  moreover from True have "\<And>td. \<not> spec_type_matches (requested_attributes kw) td"
    by (simp add: spec_type_matches_def)
  ultimately show ?thesis by simp
next
  case False
  then have "strip kw \<noteq> []"
    using blank_requested_attributes[of kw] by blast
  with False show ?thesis
    using items_loop_result[of "requested_attributes kw" "concat cat" "[]" "{}"]
    by (simp add: get_types_def get_types_impl_def Let_def entries_loop_concat catalog_items_def)
qed


lemma lower_Nil_iff: "lower s = [] \<longleftrightarrow> s = []"
  by (simp add: lower_def)

lemma requested_attributes_spec: "requested_attributes kw = spec_keywords kw"
  by (simp add: requested_attributes_def spec_keywords_def filter_map o_def lower_Nil_iff)

section \<open>Trimming, short occurrences across a seam, splitting a joined string\<close>

lemma strip_decomp:
  "\<exists>w1 w2. s = w1 @ strip s @ w2 \<and> (\<forall>c \<in> set w1. is_space c) \<and> (\<forall>c \<in> set w2. is_space c)"
proof -
  let ?d = "dropWhile is_space s"
  have 1: "s = takeWhile is_space s @ ?d" by simp
  have "rev (dropWhile is_space (rev ?d)) @ rev (takeWhile is_space (rev ?d)) =
        rev (takeWhile is_space (rev ?d) @ dropWhile is_space (rev ?d))"
    by (simp only: rev_append)
  also have "\<dots> = ?d" by (simp only: takeWhile_dropWhile_id rev_rev_ident)
  finally have 2: "?d = strip s @ rev (takeWhile is_space (rev ?d))"
    by (simp only: strip_def)
  have 3: "s = takeWhile is_space s @ strip s @ rev (takeWhile is_space (rev ?d))"
    using 1 2 by metis
  have "\<forall>c \<in> set (takeWhile is_space s). is_space c" by (auto dest: set_takeWhileD)
  moreover have "\<forall>c \<in> set (rev (takeWhile is_space (rev ?d))). is_space c"
    by (auto dest: set_takeWhileD)
  ultimately show ?thesis using 3 by blast
qed

lemma strip_ends: "strip s \<noteq> [] \<Longrightarrow> \<not> is_space (hd (strip s)) \<and> \<not> is_space (last (strip s))"
proof -
  assume ne: "strip s \<noteq> []"
  let ?d = "dropWhile is_space s"
  let ?e = "dropWhile is_space (rev ?d)"
  from ne have e: "?e \<noteq> []" by (simp add: strip_def)
  have d: "?d \<noteq> []"
  proof
    assume "?d = []"
    then have "?e = []" by (simp only: rev.simps dropWhile.simps)
    with e show False by simp
  qed
  have l: "last (strip s) = hd ?e" using e by (simp add: strip_def last_rev)
  have "\<not> is_space (hd ?e)" using e by (rule hd_dropWhile)
  with l have a: "\<not> is_space (last (strip s))" by simp
  have "suffix ?e (rev ?d)" by (rule suffix_dropWhile)
  then obtain zs where "rev ?d = zs @ ?e" by (auto simp: suffix_def)
  with e have "last (rev ?d) = last ?e" by (metis last_appendR)
  moreover have "hd (strip s) = last ?e" using e by (simp add: strip_def hd_rev)
  moreover have "last (rev ?d) = hd ?d" using d by (simp add: last_rev)
  moreover have "\<not> is_space (hd ?d)" using d by (rule hd_dropWhile)
  ultimately have "\<not> is_space (hd (strip s))" by simp
  with a show ?thesis by simp
qed

lemma strip_id: "s = [] \<or> (\<not> is_space (hd s) \<and> \<not> is_space (last s)) \<Longrightarrow> strip s = s"
  unfolding strip_def by (cases "s = []") (auto intro: strip_chars_id)

lemma strip_strip: "strip (strip s) = strip s"
  using strip_ends[of s] by (intro strip_id) blast

lemma sublist_strip: "sublist (strip s) s"
  using strip_decomp[of s] by (metis sublist_appendI)

lemma sublist_single: "sublist [x] s \<longleftrightarrow> x \<in> set s"
  by (induction s) (auto simp: sublist_Cons_right)

lemma sublist_pair_append:
  "sublist [x, y] (A @ B) \<longleftrightarrow>
     sublist [x, y] A \<or> sublist [x, y] B \<or> (A \<noteq> [] \<and> B \<noteq> [] \<and> last A = x \<and> hd B = y)"
proof -
  have "(\<exists>xs1 xs2. [x, y] = xs1 @ xs2 \<and> suffix xs1 A \<and> prefix xs2 B) \<longleftrightarrow>
        (prefix [x, y] B \<or> suffix [x, y] A \<or> (suffix [x] A \<and> prefix [y] B))"
  proof
    assume "\<exists>xs1 xs2. [x, y] = xs1 @ xs2 \<and> suffix xs1 A \<and> prefix xs2 B"
    then obtain xs1 xs2 where h: "[x, y] = xs1 @ xs2" "suffix xs1 A" "prefix xs2 B" by blast
    from h(1) have "(xs1 = [] \<and> xs2 = [x, y]) \<or> (xs1 = [x] \<and> xs2 = [y]) \<or> (xs1 = [x, y] \<and> xs2 = [])"
      by (cases xs1; cases "tl xs1") (auto simp: Cons_eq_append_conv)
    with h show "prefix [x, y] B \<or> suffix [x, y] A \<or> (suffix [x] A \<and> prefix [y] B)" by auto
  next
    assume "prefix [x, y] B \<or> suffix [x, y] A \<or> (suffix [x] A \<and> prefix [y] B)"
    then show "\<exists>xs1 xs2. [x, y] = xs1 @ xs2 \<and> suffix xs1 A \<and> prefix xs2 B"
    proof (elim disjE)
      assume "prefix [x, y] B"
      then have "[x, y] = [] @ [x, y] \<and> suffix [] A \<and> prefix [x, y] B" by simp
      then show ?thesis by blast
    next
      assume "suffix [x, y] A"
      then have "[x, y] = [x, y] @ [] \<and> suffix [x, y] A \<and> prefix [] B" by simp
      then show ?thesis by blast
    next
      assume "suffix [x] A \<and> prefix [y] B"
      then have "[x, y] = [x] @ [y] \<and> suffix [x] A \<and> prefix [y] B" by simp
      then show ?thesis by blast
    qed
  qed
  moreover have "suffix [x] A \<longleftrightarrow> A \<noteq> [] \<and> last A = x"
    by (cases A rule: rev_cases) (auto simp: suffix_def)
  moreover have "prefix [y] B \<longleftrightarrow> B \<noteq> [] \<and> hd B = y"
    by (cases B) auto
  ultimately show ?thesis
    unfolding sublist_append[of "[x, y]" A B] by (auto dest: prefix_imp_sublist suffix_imp_sublist)
qed

lemma split_char_prefix:
  "sep \<notin> set x \<Longrightarrow> split_char sep (x @ sep # rest) = x # split_char sep rest"
  by (induction x) auto

lemma split_char_join:
  "cs \<noteq> [] \<Longrightarrow> \<forall>c \<in> set cs. sep \<notin> set c \<Longrightarrow> split_char sep (join [sep] cs) = cs"
proof (induction "[sep]" cs rule: join.induct)
  case 1
  then show ?case by simp
next
  case (2 x)
  then show ?case by (simp add: split_char_no_sep)
next
  case (3 x y ys)
  then show ?case by (simp add: split_char_prefix)
qed

section \<open>Parsing a clause again\<close>

lemma first_split_unique:
  "spec_first_split op c l r \<Longrightarrow> spec_first_split op c l' r' \<Longrightarrow> l' = l \<and> r' = r"
proof -
  assume a: "spec_first_split op c l r" and b: "spec_first_split op c l' r'"
  then have "length l \<le> length l'" "length l' \<le> length l"
    unfolding spec_first_split_def by blast+
  then have "length l = length l'" by simp
  moreover from a b have "l @ op @ r = l' @ op @ r'" unfolding spec_first_split_def by simp
  ultimately show ?thesis by simp
qed

lemma split_first_spec:
  "spec_first_split op c l r \<Longrightarrow> split_first op c = Some (l, r)"
proof -
  assume a: "spec_first_split op c l r"
  then have "sublist op c" unfolding spec_first_split_def by auto
  then obtain l' r' where s: "split_first op c = Some (l', r')"
    using split_first_None[of op c] by (cases "split_first op c") auto
  have "spec_first_split op c l' r'"
    unfolding spec_first_split_def
    using split_first_decomp[OF s] split_first_leftmost[OF s] by blast
  with a s show ?thesis using first_split_unique by blast
qed

lemma find_operator_complete:
  "k < length ops \<Longrightarrow> \<forall>j < k. \<not> sublist (ops ! j) c \<Longrightarrow> spec_first_split (ops ! k) c l r \<Longrightarrow>
   find_operator ops c = Some (strip l, ops ! k, strip r)"
proof (induction ops arbitrary: k)
  case Nil
  then show ?case by simp
next
  case (Cons operator ops)
  show ?case
  proof (cases k)
    case 0
    with Cons.prems(3) have fs: "spec_first_split operator c l r" by simp
    then have "sublist operator c" unfolding spec_first_split_def by auto
    with split_first_spec[OF fs] 0 show ?thesis
      by (simp add: py_in_sublist split1_def)
  next
    case (Suc k')
    with Cons.prems have "\<not> sublist operator c" by auto
    moreover from Suc Cons.prems have "k' < length ops" "\<forall>j < k'. \<not> sublist (ops ! j) c"
      "spec_first_split (ops ! k') c l r" by auto
    ultimately show ?thesis using Cons.IH[of k'] Suc by (simp add: py_in_sublist)
  qed
qed

lemma float_strip_hd:
  "c \<notin> set float_space_chars \<Longrightarrow> \<exists>t. float_strip (c # s) = c # t"
proof -
  assume a: "c \<notin> set float_space_chars"
  let ?P = "\<lambda>c. c \<in> set float_space_chars"
  from a have "dropWhile ?P (c # s) = c # s" by simp
  moreover from a have "dropWhile ?P (rev s @ [c]) = dropWhile ?P (rev s) @ [c]"
    by (simp add: dropWhile_append3)
  ultimately have "float_strip (c # s) = c # rev (dropWhile ?P (rev s))"
    by (simp add: float_strip_def)
  then show ?thesis by blast
qed

lemma is_number_hd: "is_number v \<Longrightarrow> v = [] \<or> hd v \<noteq> CHR ''=''"
proof (rule ccontr)
  assume n: "is_number v" and "\<not> (v = [] \<or> hd v \<noteq> CHR ''='')"
  then obtain s where v: "v = CHR ''='' # s" by (cases v) auto
  have "CHR ''='' \<notin> set float_space_chars" by (simp add: float_space_chars_def)
  from float_strip_hd[OF this, of s] obtain t where t: "float_strip v = CHR ''='' # t"
    using v by blast
  then have sk: "skip_sign (float_strip v) = CHR ''='' # t" by (simp add: skip_sign_def)
  have l: "lower (CHR ''='' # t) = CHR ''='' # lower t"
    by (simp add: lower_def lower_char_def upper_chars_def lower_chars_def)
  have f: "\<not> floatnumber (CHR ''='' # t)"
    by (simp add: floatnumber_def digitpart_def is_digit_def)
  from n show False
    unfolding is_number_def float_accepts_def Let_def sk l using f by simp
qed

lemma quote_value_hd: "quote_value v = [] \<or> hd (quote_value v) \<noteq> CHR ''=''"
proof (cases "is_number v \<or> is_quoted v")
  case True
  then have q: "quote_value v = v" by (auto simp: quote_value_def)
  from True show ?thesis
  proof
    assume "is_number v"
    with q is_number_hd[of v] show ?thesis by simp
  next
    assume "is_quoted v"
    then have "hd v = squote \<or> hd v = dquote" by (auto simp: is_quoted_def)
    with q show ?thesis by (auto simp: squote_def dquote_def)
  qed
next
  case False
  then show ?thesis by (simp add: quote_value_def dquote_def)
qed

lemma quote_value_idem: "quote_value (quote_value v) = quote_value v"
proof (cases "is_number v \<or> is_quoted v")
  case True
  then show ?thesis by (auto simp: quote_value_def)
next
  case False
  then have q: "quote_value v = [dquote] @ v @ [dquote]" by (simp add: quote_value_def)
  have "is_quoted ([dquote] @ v @ [dquote])" by (simp add: is_quoted_def)
  then show ?thesis unfolding q by (simp add: quote_value_def)
qed

lemma strip_quote_value: "strip v = v \<Longrightarrow> strip (quote_value v) = quote_value v"
proof (cases "is_number v \<or> is_quoted v")
  case True
  assume "strip v = v"
  with True show ?thesis by (auto simp: quote_value_def)
next
  case False
  then have q: "quote_value v = [dquote] @ v @ [dquote]" by (simp add: quote_value_def)
  have "\<not> is_space dquote" by (simp add: is_space_def whitespace_chars_def dquote_def)
  then show ?thesis unfolding q by (intro strip_id) simp
qed

lemma set_quote_value: "set (quote_value v) \<subseteq> insert dquote (set v)"
  by (auto simp: quote_value_def)

lemma operator_facts:
  assumes "op \<in> set supported_operators"
  shows "op \<noteq> []" and "hd op = CHR ''='' \<Longrightarrow> op = ''==''"
    and "hd op \<in> set (tl op) \<Longrightarrow> op = ''==''" and "dquote \<notin> set op"
  using assms by (auto simp: supported_operators_def dquote_def)

lemma seam_no_pair:
  assumes nf: "\<not> sublist [x, CHR ''=''] f" and f: "f = w1 @ a @ w2 @ op @ w3 @ v @ w4"
    and x: "x \<noteq> dquote" and op: "op \<noteq> []" "hd op \<noteq> CHR ''=''"
  shows "\<not> sublist [x, CHR ''=''] (a @ op @ quote_value v)"
proof
  let ?o = "[x, CHR ''='']"
  assume s: "sublist ?o (a @ op @ quote_value v)"
  have na: "\<not> sublist ?o a"
  proof
    assume "sublist ?o a"
    then obtain p q where "a = p @ ?o @ q" by (auto simp: sublist_def)
    then have "f = (w1 @ p) @ ?o @ (q @ w2 @ op @ w3 @ v @ w4)" using f by simp
    with nf show False unfolding sublist_def by blast
  qed
  have nop: "\<not> sublist ?o op"
  proof
    assume "sublist ?o op"
    then obtain p q where "op = p @ ?o @ q" by (auto simp: sublist_def)
    then have "f = (w1 @ a @ w2 @ p) @ ?o @ (q @ w3 @ v @ w4)" using f by simp
    with nf show False unfolding sublist_def by blast
  qed
  have nv: "\<not> sublist ?o v"
  proof
    assume "sublist ?o v"
    then obtain p q where "v = p @ ?o @ q" by (auto simp: sublist_def)
    then have "f = (w1 @ a @ w2 @ op @ w3 @ p) @ ?o @ (q @ w4)" using f by simp
    with nf show False unfolding sublist_def by blast
  qed
  have nq: "\<not> sublist ?o (quote_value v)"
  proof (cases "quote_value v = v")
    case True
    with nv show ?thesis by simp
  next
    case False
    then have q: "quote_value v = [dquote] @ (v @ [dquote])"
      by (auto simp: quote_value_def split: if_splits)
    have "\<not> sublist ?o [dquote]" by (auto dest: sublist_length_le)
    moreover have "\<not> sublist ?o (v @ [dquote])"
      using nv \<open>\<not> sublist ?o [dquote]\<close> by (simp add: sublist_pair_append dquote_def)
    ultimately show ?thesis
      unfolding q using x by (simp add: sublist_pair_append del: append.simps)
  qed
  have nopq: "\<not> sublist ?o (op @ quote_value v)"
    using nop nq quote_value_hd[of v] by (auto simp: sublist_pair_append)
  from s na nopq op show False
    by (auto simp: sublist_pair_append)
qed

lemma seam_no_single:
  assumes nf: "\<not> sublist [x] f" and f: "f = w1 @ a @ w2 @ op @ w3 @ v @ w4" and x: "x \<noteq> dquote"
  shows "\<not> sublist [x] (a @ op @ quote_value v)"
proof -
  from nf have "x \<notin> set f" by (simp add: sublist_single)
  with f have "x \<notin> set a \<union> set op \<union> set v" by auto
  with x set_quote_value[of v] have "x \<notin> set (a @ op @ quote_value v)" by auto
  then show ?thesis by (simp add: sublist_single)
qed

lemma append_eq_split:
  assumes "xs @ ys = zs @ ws" and "length zs \<le> length xs"
  shows "\<exists>t. xs = zs @ t \<and> ws = t @ ys"
proof -
  from assms(1) consider us where "xs = zs @ us" "us @ ys = ws" | us where "xs @ us = zs" "ys = us @ ws"
    unfolding append_eq_append_conv2 by blast
  then show ?thesis
  proof cases
    case 1
    then show ?thesis by blast
  next
    case 2
    with assms(2) have "us = []" by (cases us) auto
    with 2 show ?thesis by simp
  qed
qed

lemma seam_first_split:
  assumes fs: "spec_first_split op f l r" and l: "l = w1 @ a @ w2"
    and op: "op \<in> set supported_operators"
    and ok: "op = ''=='' \<longrightarrow> a = [] \<or> last a \<noteq> CHR ''=''"
  shows "spec_first_split op (a @ op @ v') a v'"
  unfolding spec_first_split_def
proof (intro conjI allI impI)
  show "a @ op @ v' = a @ op @ v'" by simp
next
  fix p q
  assume e: "a @ op @ v' = p @ op @ q"
  show "length a \<le> length p"
  proof (rule ccontr)
    assume "\<not> length a \<le> length p"
    then have lt: "length p < length a" by simp
    then have "length p \<le> length a" by simp
    from append_eq_split[OF e this] obtain t where a: "a = p @ t" and e': "op @ q = t @ op @ v'"
      by blast
    from lt a have tne: "t \<noteq> []" by auto
    show False
    proof (cases "length op \<le> length t")
      case True
      from append_eq_split[OF e'[symmetric] True] obtain u where "t = op @ u" by blast
      with a l fs have "f = (w1 @ p) @ op @ (u @ w2 @ op @ r)"
        unfolding spec_first_split_def by simp
      with fs have "length l \<le> length (w1 @ p)" unfolding spec_first_split_def by blast
      with l a tne show False by simp
    next
      case False
      then have "length t \<le> length op" by simp
      from append_eq_split[OF e' this] obtain u where opu: "op = t @ u" and e2: "op @ v' = u @ q"
        by blast
      from False opu have une: "u \<noteq> []" by auto
      from opu have "length u \<le> length op" by simp
      from append_eq_split[OF e2 this] obtain s where ous: "op = u @ s" by blast
      from ous une have hu: "hd op = hd u" by (cases u) auto
      from opu tne une have "hd u \<in> set (tl op)" by (cases t; cases u) auto
      with hu have eqeq: "op = ''==''" using operator_facts(3)[OF op] by simp
      from opu have "set t \<subseteq> set op" by auto
      with eqeq have "set t \<subseteq> {CHR ''=''}" by auto
      with tne have "last t = CHR ''=''" using last_in_set[of t] by blast
      with a tne ok eqeq show False by simp
    qed
  qed
qed

lemma higher_operators:
  assumes "k < length supported_operators" and "j < k"
  shows "supported_operators ! j \<in> set [''=='', ''!='', ''<='', ''>='', ''<'', ''>'']"
    and "supported_operators ! k \<noteq> ''==''"
proof -
  have b: "butlast supported_operators = [''=='', ''!='', ''<='', ''>='', ''<'', ''>'']"
    by (simp add: supported_operators_def)
  from assms have "j < length (butlast supported_operators)" by simp
  then have "butlast supported_operators ! j \<in> set (butlast supported_operators)"
    by (rule nth_mem)
  moreover from assms have "butlast supported_operators ! j = supported_operators ! j"
    by (simp add: nth_butlast)
  ultimately show "supported_operators ! j \<in> set [''=='', ''!='', ''<='', ''>='', ''<'', ''>'']"
    using b by simp
  have d: "distinct supported_operators" by (simp add: supported_operators_def)
  have z: "supported_operators ! 0 = ''==''" by (simp add: supported_operators_def)
  from assms have "k \<noteq> 0" "0 < length supported_operators" by auto
  with d assms(1) have "supported_operators ! k \<noteq> supported_operators ! 0"
    by (simp add: nth_eq_iff_index_eq)
  with z show "supported_operators ! k \<noteq> ''==''" by simp
qed

lemma reparse_clause:
  assumes fo: "find_operator supported_operators f = Some (a, op, v)"
    and ok: "op = ''=='' \<longrightarrow> a = [] \<or> last a \<noteq> CHR ''=''"
  shows "find_operator supported_operators (a @ op @ quote_value v) = Some (a, op, quote_value v)"
proof -
  from find_operator_Some[OF fo] obtain k l r where
    k: "k < length supported_operators" and opk: "op = supported_operators ! k" and
    nj: "\<forall>j < k. \<not> sublist (supported_operators ! j) f" and
    fs: "spec_first_split op f l r" and al: "a = strip l" and vr: "v = strip r"
    by blast
  from k opk have opm: "op \<in> set supported_operators" by simp
  from strip_decomp[of l] al obtain w1 w2 where l: "l = w1 @ a @ w2" by blast
  from strip_decomp[of r] vr obtain w3 w4 where r: "r = w3 @ v @ w4" by blast
  from fs l r have f: "f = w1 @ a @ w2 @ op @ w3 @ v @ w4"
    unfolding spec_first_split_def by simp
  let ?c = "a @ op @ quote_value v"
  have A: "\<forall>j < k. \<not> sublist (supported_operators ! j) ?c"
  proof (intro allI impI)
    fix j assume j: "j < k"
    from higher_operators[OF k j] opk have
      o: "supported_operators ! j \<in> set [''=='', ''!='', ''<='', ''>='', ''<'', ''>'']" and
      ne: "op \<noteq> ''==''" by simp_all
    from ne operator_facts(1,2)[OF opm] have op: "op \<noteq> []" "hd op \<noteq> CHR ''=''" by auto
    from nj j have nf: "\<not> sublist (supported_operators ! j) f" by simp
    from o consider x where "supported_operators ! j = [x, CHR ''='']" "x \<noteq> dquote"
      | x where "supported_operators ! j = [x]" "x \<noteq> dquote"
      by (auto simp: dquote_def)
    then show "\<not> sublist (supported_operators ! j) ?c"
    proof cases
      case 1
      with nf seam_no_pair[OF _ f 1(2) op] show ?thesis by simp
    next
      case 2
      with nf seam_no_single[OF _ f 2(2)] show ?thesis by simp
    qed
  qed
  have B: "spec_first_split (supported_operators ! k) ?c a (quote_value v)"
    using seam_first_split[OF fs l opm ok] opk by simp
  have "strip a = a" using al strip_strip by simp
  moreover have "strip (quote_value v) = quote_value v"
    using vr strip_strip by (intro strip_quote_value) simp
  ultimately show ?thesis
    using find_operator_complete[OF k A B] opk by simp
qed

lemma clause_of_idem:
  assumes "find_operator supported_operators f \<noteq> None" and "spec_reparsable f"
  shows "find_operator supported_operators (clause_of f) \<noteq> None \<and> clause_of (clause_of f) = clause_of f \<and>
         CHR '';'' \<notin> set (clause_of f)"
proof -
  from assms(1) obtain a op v where fo: "find_operator supported_operators f = Some (a, op, v)"
    by (cases "find_operator supported_operators f") auto
  then have c: "clause_of f = a @ op @ quote_value v" by (simp add: clause_of_def)
  from assms(2) fo have ok: "op = ''=='' \<longrightarrow> a = [] \<or> last a \<noteq> CHR ''=''"
    by (auto simp: spec_reparsable_def)
  note rp = reparse_clause[OF fo ok]
  then have "clause_of (clause_of f) = a @ op @ quote_value (quote_value v)"
    unfolding c by (simp add: clause_of_def)
  then have i: "clause_of (clause_of f) = clause_of f" by (simp add: c quote_value_idem)
  from find_operator_Some[OF fo] obtain l r where
    fs: "spec_first_split op f l r" and al: "a = strip l" and vr: "v = strip r" by blast
  from fs have f: "f = l @ op @ r" unfolding spec_first_split_def by simp
  have "set a \<subseteq> set l" using al set_mono_sublist[OF sublist_strip[of l]] by simp
  moreover have "set v \<subseteq> set r" using vr set_mono_sublist[OF sublist_strip[of r]] by simp
  ultimately have "set (a @ op @ quote_value v) \<subseteq> insert dquote (set (l @ op @ r))"
    using set_quote_value[of v] by auto
  then have "set (clause_of f) \<subseteq> insert dquote (set f)"
    using c f by metis
  moreover from assms(2) have "CHR '';'' \<notin> set f" by (simp add: spec_reparsable_def)
  ultimately have "CHR '';'' \<notin> set (clause_of f)" by (auto simp: dquote_def)
  with rp i c show ?thesis by simp
qed

lemma normalize_loop_clauses:
  "\<forall>f \<in> set fs. find_operator supported_operators f \<noteq> None \<Longrightarrow>
   normalize_loop fs acc = Inr (acc @ map clause_of fs)"
proof (induction fs arbitrary: acc)
  case Nil
  then show ?case by simp
next
  case (Cons f fs)
  then obtain a op v where fo: "find_operator supported_operators f = Some (a, op, v)"
    by (cases "find_operator supported_operators f") auto
  with Cons show ?case by (simp add: clause_of_def)
qed

lemma normalize_loop_Inr:
  "normalize_loop fs acc = Inr res \<Longrightarrow> \<forall>f \<in> set fs. find_operator supported_operators f \<noteq> None"
proof (induction fs arbitrary: acc)
  case Nil
  then show ?case by simp
next
  case (Cons f fs)
  then show ?case
    by (cases "find_operator supported_operators f") (auto split: prod.splits)
qed

section \<open>The properties\<close>

text \<open>
  C1. For every list of filter strings that each contain a supported operator, the normaliser
  renders each string as one clause, splitting it at the first occurrence of the earliest
  operator in the order \<open>==, !=, <=, >=, <, >, contains\<close>, with the trimmed left part as
  attribute and the trimmed right part as raw value, the clause being attribute, operator and
  value with nothing between them; the clauses are joined with \<open>;\<close> in the order of the
  input. (For the empty list there is no query at all.)
\<close>

theorem normalize_clauses:
  assumes "\<forall>f \<in> set fs. spec_has_operator f"
  shows "\<exists>cs. list_all2 spec_clause fs cs \<and>
           normalize_filters (Some fs) = Inr (if fs = [] then None else Some (join '';'' cs))"
proof -
  from normalize_loop_ok[OF assms, of "[]"] obtain cs where
    "list_all2 spec_clause fs cs" "normalize_loop fs [] = Inr cs" by auto
  then show ?thesis by (auto simp: normalize_filters_def)
qed

theorem normalize_clauses_witness:
  "spec_has_operator ''consumption > 0.5'' \<and> spec_has_operator ''located_in==building1'' \<and>
   (\<exists>cs. list_all2 spec_clause [''consumption > 0.5'', ''located_in==building1''] cs \<and>
      normalize_filters (Some [''consumption > 0.5'', ''located_in==building1'']) = Inr (Some (join '';'' cs))) \<and>
   normalize_filters (Some [''consumption > 0.5'', ''located_in==building1''])
     = Inr (Some (''consumption>0.5;located_in=='' @ [dquote] @ ''building1'' @ [dquote]))"
proof -
  have h1: "spec_has_operator ''consumption > 0.5''"
    by (simp add: spec_has_operator_def supported_operators_def py_in_sublist[symmetric])
  have h2: "spec_has_operator ''located_in==building1''"
    by (simp add: spec_has_operator_def supported_operators_def py_in_sublist[symmetric])
  have h: "\<forall>f \<in> set [''consumption > 0.5'', ''located_in==building1'']. spec_has_operator f"
    using h1 h2 by simp
  have e: "normalize_filters (Some [''consumption > 0.5'', ''located_in==building1''])
     = Inr (Some (''consumption>0.5;located_in=='' @ [dquote] @ ''building1'' @ [dquote]))"
    by (simp add: normalize_filters_def supported_operators_def split1_def strip_def is_space_def
        whitespace_chars_def quote_value_def is_number_def is_quoted_def float_accepts_def
        float_strip_def float_space_chars_def skip_sign_def lower_def lower_char_def upper_chars_def
        lower_chars_def floatnumber_def digitpart_def is_digit_def exponent_end_def dquote_def
        squote_def)
  from normalize_clauses[OF h]
  have "\<exists>cs. list_all2 spec_clause [''consumption > 0.5'', ''located_in==building1''] cs \<and>
      normalize_filters (Some [''consumption > 0.5'', ''located_in==building1'']) = Inr (Some (join '';'' cs))"
    by simp
  with h1 h2 e show ?thesis by blast
qed

text \<open>
  C2, as amended. A raw value that \<^verbatim>\<open>float()\<close> accepts passes through unquoted and unchanged;
  every value matching the numeric pattern is such a value, and so are others (\<open>1e5\<close>, \<open>inf\<close>,
  \<open>+1\<close>, \<open>.5\<close>). A value of at least two characters whose first and last characters are the
  same quote character passes through unchanged. Every value that \<^verbatim>\<open>float()\<close> rejects and
  that is not quoted in this sense is wrapped in double quotes.
\<close>

theorem quote_value_classes:
  "(spec_numeric_pattern v \<longrightarrow> is_number v \<and> quote_value v = v) \<and>
   (is_number v \<longrightarrow> quote_value v = v) \<and>
   (is_quoted v \<longleftrightarrow> 2 \<le> length v \<and> spec_prequoted v) \<and>
   (is_quoted v \<longrightarrow> quote_value v = v) \<and>
   (\<not> is_number v \<and> \<not> is_quoted v \<longrightarrow> quote_value v = [dquote] @ v @ [dquote])"
  using numeric_pattern_is_number[of v] quote_value_idem_cases[of v] is_quoted_spec[of v]
  by blast

theorem quote_value_classes_witness:
  "spec_numeric_pattern ''-0.5'' \<and> quote_value ''-0.5'' = ''-0.5'' \<and>
   2 \<le> length ([squote] @ ''x y'' @ [squote]) \<and> spec_prequoted ([squote] @ ''x y'' @ [squote]) \<and>
   quote_value ([squote] @ ''x y'' @ [squote]) = [squote] @ ''x y'' @ [squote] \<and>
   \<not> is_number ''building1'' \<and> \<not> is_quoted ''building1'' \<and>
   quote_value ''building1'' = [dquote] @ ''building1'' @ [dquote]"
proof -
  have a: "spec_numeric_pattern ''-0.5''"
    by (simp add: spec_numeric_pattern_def is_digit_def)
  have b: "2 \<le> length ([squote] @ ''x y'' @ [squote])" "spec_prequoted ([squote] @ ''x y'' @ [squote])"
    by (simp_all add: spec_prequoted_def)
  have c: "\<not> is_number ''building1''" "\<not> is_quoted ''building1''"
    by (simp_all add: quote_value_def is_number_def
      is_quoted_def float_accepts_def float_strip_def float_space_chars_def skip_sign_def lower_def
      lower_char_def upper_chars_def lower_chars_def floatnumber_def digitpart_def is_digit_def
      exponent_end_def dquote_def squote_def)
  from a quote_value_classes[of "''-0.5''"] have a': "quote_value ''-0.5'' = ''-0.5''" by blast
  from b quote_value_classes[of "[squote] @ ''x y'' @ [squote]"]
  have b': "quote_value ([squote] @ ''x y'' @ [squote]) = [squote] @ ''x y'' @ [squote]" by blast
  from c quote_value_classes[of "''building1''"]
  have c': "quote_value ''building1'' = [dquote] @ ''building1'' @ [dquote]" by blast
  from a a' b b' c c' show ?thesis by blast
qed

theorem quote_value_classes_counterexample:
  "\<not> spec_numeric_pattern ''1e5'' \<and> \<not> spec_prequoted ''1e5'' \<and>
   quote_value ''1e5'' = ''1e5'' \<and> quote_value ''1e5'' \<noteq> [dquote] @ ''1e5'' @ [dquote] \<and>
   spec_prequoted [dquote] \<and> quote_value [dquote] = [dquote, dquote, dquote] \<and>
   quote_value [dquote] \<noteq> [dquote]"
  by (simp add: spec_numeric_pattern_def spec_prequoted_def quote_value_def is_number_def
      is_quoted_def float_accepts_def float_strip_def float_space_chars_def skip_sign_def lower_def
      lower_char_def upper_chars_def lower_chars_def floatnumber_def digitpart_def is_digit_def
      exponent_end_def dquote_def squote_def)

text \<open>
  C3, as amended. If some string of the list contains no supported operator, the normaliser
  fails with the invalid-filter error that carries the first such string, whatever the other
  strings are, and gives no query; \<open>_read\<close> returns that error without a request to the
  store, and \<open>read\<close>, once its selector checks have passed, returns the same error unchanged.
  (When a selector check fails, \<open>read\<close> returns that check's error and the filters are never
  looked at; in no case is a request made.)
\<close>

theorem invalid_filter_all_or_nothing:
  assumes "bad \<in> set fs" and "\<not> spec_has_operator bad"
  shows "\<exists>b. find (\<lambda>f. \<not> spec_has_operator f) fs = Some b \<and> b \<in> set fs \<and> \<not> spec_has_operator b \<and>
           normalize_filters (Some fs) = Inl (InvalidFilter b) \<and>
           read_impl store tid oid attrs (Some fs) = ([], Inl (InvalidFilter b)) \<and>
           fst (read cat store tid oid attrs (Some fs)) = [] \<and>
           (\<not> (nonblank tid \<and> nonblank oid) \<longrightarrow> (\<forall>t. tid = Some t \<longrightarrow> nonblank tid \<longrightarrow> type_exists cat t) \<longrightarrow>
              read cat store tid oid attrs (Some fs) = ([], Inl (InvalidFilter b)))"
proof -
  from find_Some_first[of bad fs "\<lambda>f. \<not> spec_has_operator f"] assms
  obtain b where b: "find (\<lambda>f. \<not> spec_has_operator f) fs = Some b" "\<not> spec_has_operator b" "b \<in> set fs"
    by blast
  from assms(1) have ne: "fs \<noteq> []" by auto
  from normalize_loop_bad[OF b(1), of "[]"] ne have n: "normalize_filters (Some fs) = Inl (InvalidFilter b)"
    by (simp add: normalize_filters_def)
  then have r: "read_impl store tid oid attrs (Some fs) = ([], Inl (InvalidFilter b))"
    by (simp add: read_impl_def)
  then have f: "fst (read cat store tid oid attrs (Some fs)) = []"
    by (auto simp: read_def split: option.splits)
  have "\<not> (nonblank tid \<and> nonblank oid) \<longrightarrow> (\<forall>t. tid = Some t \<longrightarrow> nonblank tid \<longrightarrow> type_exists cat t) \<longrightarrow>
              read cat store tid oid attrs (Some fs) = ([], Inl (InvalidFilter b))"
    using read_no_conflict[of tid oid cat store attrs "Some fs"] r by auto
  with b n r f show ?thesis by blast
qed

theorem invalid_filter_all_or_nothing_witness:
  "''bad_clause_no_operator'' \<in> set [''temperature>30'', ''bad_clause_no_operator'', ''x''] \<and>
   \<not> spec_has_operator ''bad_clause_no_operator'' \<and>
   normalize_filters (Some [''temperature>30'', ''bad_clause_no_operator'', ''x''])
     = Inl (InvalidFilter ''bad_clause_no_operator'') \<and>
   (\<exists>b. find (\<lambda>f. \<not> spec_has_operator f) [''temperature>30'', ''bad_clause_no_operator'', ''x''] = Some b \<and>
      read sample_catalog sample_store (Some ''plug'') None None
        (Some [''temperature>30'', ''bad_clause_no_operator'', ''x'']) = ([], Inl (InvalidFilter b)))"
proof -
  let ?fs = "[''temperature>30'', ''bad_clause_no_operator'', ''x'']"
  have a: "''bad_clause_no_operator'' \<in> set ?fs" by simp
  have b: "\<not> spec_has_operator ''bad_clause_no_operator''"
    by (simp add: spec_has_operator_def supported_operators_def py_in_sublist[symmetric])
  have c: "normalize_filters (Some ?fs) = Inl (InvalidFilter ''bad_clause_no_operator'')"
    by (simp add: normalize_filters_def supported_operators_def split1_def strip_def is_space_def
        whitespace_chars_def quote_value_def is_number_def is_quoted_def float_accepts_def
        float_strip_def float_space_chars_def skip_sign_def lower_def lower_char_def upper_chars_def
        lower_chars_def floatnumber_def digitpart_def is_digit_def exponent_end_def dquote_def
        squote_def)
  have d: "\<not> (nonblank (Some ''plug'') \<and> nonblank None)" by (simp add: nonblank_def)
  have e: "\<forall>t. Some ''plug'' = Some t \<longrightarrow> nonblank (Some ''plug'') \<longrightarrow> type_exists sample_catalog t"
    by (simp add: type_exists_def sample_catalog_def)
  from invalid_filter_all_or_nothing[OF a b, of sample_store "Some ''plug''" None None sample_catalog] d e
  have "\<exists>b. find (\<lambda>f. \<not> spec_has_operator f) ?fs = Some b \<and>
      read sample_catalog sample_store (Some ''plug'') None None (Some ?fs) = ([], Inl (InvalidFilter b))"
    by blast
  with a b c show ?thesis by blast
qed

theorem invalid_filter_all_or_nothing_counterexample:
  "''bad_clause_no_operator'' \<in> set [''bad_clause_no_operator''] \<and>
   \<not> spec_has_operator ''bad_clause_no_operator'' \<and>
   read sample_catalog sample_store (Some ''plug'') (Some ''x'') None (Some [''bad_clause_no_operator''])
     = ([], Inl ConflictingSelectors) \<and>
   read sample_catalog sample_store (Some ''nonexistent_type'') None None (Some [''bad_clause_no_operator''])
     = ([], Inl (UnknownType ''nonexistent_type'')) \<and>
   read_impl sample_store (Some ''plug'') (Some ''x'') None (Some [''bad_clause_no_operator''])
     = ([], Inl (InvalidFilter ''bad_clause_no_operator''))"
  by (simp add: read_def read_impl_def nonblank_def type_exists_def sample_catalog_def
      spec_has_operator_def py_in_sublist[symmetric] normalize_filters_def supported_operators_def split1_def strip_def is_space_def
      whitespace_chars_def)

text \<open>
  C4. For every keywords string, \<open>get_types\<close> returns exactly those catalog types whose
  lower-cased type description, or failing that some attribute's lower-cased description,
  contains as a substring at least one keyword, the keywords being the comma-separated
  elements, trimmed and lower-cased, that are not empty; each matching type name appears
  exactly once, at its first place in catalog order; and for empty or whitespace-only input,
  or none, the result is empty. The result is always a list: there is no error.
\<close>

theorem get_types_matches:
  "get_types cat kw =
     spec_once_each (filter (\<lambda>(n, td). spec_type_matches (spec_keywords kw) td) (catalog_items cat)) \<and>
   requested_attributes kw = spec_keywords kw \<and>
   distinct (map fst (get_types cat kw)) \<and>
   (distinct (map fst (catalog_items cat)) \<longrightarrow>
      get_types cat kw = filter (\<lambda>(n, td). spec_type_matches (spec_keywords kw) td) (catalog_items cat)) \<and>
   (strip kw = [] \<longrightarrow> get_types cat kw = []) \<and>
   get_types_impl cat None = []"
proof -
  let ?xs = "filter (\<lambda>(n, td). spec_type_matches (spec_keywords kw) td) (catalog_items cat)"
  have e: "get_types cat kw = spec_once_each ?xs"
    using get_types_eq[of cat kw] by (simp only: requested_attributes_spec)
  have d: "distinct (map fst (get_types cat kw))" unfolding e by (rule once_each_distinct)
  have i: "distinct (map fst (catalog_items cat)) \<longrightarrow> get_types cat kw = ?xs"
    unfolding e by (auto intro: once_each_id simp: distinct_map_filter)
  have b: "strip kw = [] \<longrightarrow> get_types cat kw = []"
    by (simp add: get_types_def get_types_impl_def)
  have n: "get_types_impl cat None = []" by (simp add: get_types_impl_def)
  from e requested_attributes_spec d i b n show ?thesis by blast
qed

theorem get_types_matches_witness:
  "distinct (map fst (catalog_items sample_catalog)) \<and>
   get_types sample_catalog ''Temperature, humidity'' =
     filter (\<lambda>(n, td). spec_type_matches (spec_keywords ''Temperature, humidity'') td)
       (catalog_items sample_catalog) \<and>
   get_types sample_catalog ''Temperature, humidity'' =
     [(''thermometer'', \<lparr>type_description = Some ''Measures the air'',
        type_attributes = Some [\<lparr>attr_name = ''temperature'',
                                  attr_description = Some ''Temperature in Celsius''\<rparr>]\<rparr>)] \<and>
   strip ''  '' = [] \<and> get_types sample_catalog ''  '' = []"
proof -
  have d: "distinct (map fst (catalog_items sample_catalog))"
    by (simp add: catalog_items_def sample_catalog_def)
  have b: "strip ''  '' = []"
    by (simp add: strip_def is_space_def whitespace_chars_def)
  have e: "get_types sample_catalog ''Temperature, humidity'' =
     [(''thermometer'', \<lparr>type_description = Some ''Measures the air'',
        type_attributes = Some [\<lparr>attr_name = ''temperature'',
                                  attr_description = Some ''Temperature in Celsius''\<rparr>]\<rparr>)]"
    by (simp add: get_types_def get_types_impl_def requested_attributes_def strip_def is_space_def
        whitespace_chars_def lower_def lower_char_def upper_chars_def lower_chars_def
        sample_catalog_def any_token_in_def add_match_def description_of_def attributes_of_def
        attr_description_of_def Let_def)
  from d get_types_matches[of sample_catalog "''Temperature, humidity''"]
  have f: "get_types sample_catalog ''Temperature, humidity'' =
     filter (\<lambda>(n, td). spec_type_matches (spec_keywords ''Temperature, humidity'') td)
       (catalog_items sample_catalog)"
    by blast
  from b get_types_matches[of sample_catalog "''  ''"]
  have g: "get_types sample_catalog ''  '' = []" by blast
  from d f e b g show ?thesis by blast
qed

text \<open>
  C5. When both \<open>type_id\<close> and \<open>object_id\<close> are supplied and non-blank, \<open>read\<close> fails with
  the conflicting-selectors error, and no request is made to the store.
\<close>

theorem read_conflicting_selectors:
  "nonblank tid \<Longrightarrow> nonblank oid \<Longrightarrow> read cat store tid oid attrs fs = ([], Inl ConflictingSelectors)"
  by (simp add: read_def)

theorem read_conflicting_selectors_witness:
  "nonblank (Some ''plug'') \<and> nonblank (Some ''x'') \<and>
   read sample_catalog sample_store (Some ''plug'') (Some ''x'') None None = ([], Inl ConflictingSelectors)"
proof -
  have a: "nonblank (Some ''plug'')" by (simp add: nonblank_def strip_def is_space_def whitespace_chars_def)
  have b: "nonblank (Some ''x'')" by (simp add: nonblank_def strip_def is_space_def whitespace_chars_def)
  show ?thesis using a b read_conflicting_selectors[OF a b] by simp
qed

text \<open>
  C6, as amended. When \<open>type_id\<close> is supplied, non-blank and names no type of the catalog, and
  \<open>object_id\<close> is absent or blank, \<open>read\<close> fails with the unknown-type error naming that
  identifier, and no request is made to the store. With a non-blank \<open>object_id\<close> as well, the
  conflicting-selectors check comes first and its error is the one returned.
\<close>

theorem read_unknown_type:
  "nonblank (Some t) \<Longrightarrow> \<not> nonblank oid \<Longrightarrow> \<not> type_exists cat t \<Longrightarrow>
   read cat store (Some t) oid attrs fs = ([], Inl (UnknownType t))"
  by (simp add: read_def)

theorem read_unknown_type_witness:
  "nonblank (Some ''nonexistent_type'') \<and> \<not> nonblank None \<and>
   \<not> type_exists sample_catalog ''nonexistent_type'' \<and>
   read sample_catalog sample_store (Some ''nonexistent_type'') None None None
     = ([], Inl (UnknownType ''nonexistent_type''))"
proof -
  have a: "nonblank (Some ''nonexistent_type'')"
    by (simp add: nonblank_def strip_def is_space_def whitespace_chars_def)
  have b: "\<not> nonblank None" by (simp add: nonblank_def)
  have c: "\<not> type_exists sample_catalog ''nonexistent_type''"
    by (simp add: type_exists_def sample_catalog_def)
  show ?thesis using a b c read_unknown_type[OF a b c] by simp
qed

theorem read_unknown_type_counterexample:
  "nonblank (Some ''nonexistent_type'') \<and> \<not> type_exists sample_catalog ''nonexistent_type'' \<and>
   read sample_catalog sample_store (Some ''nonexistent_type'') (Some ''x'') None None
     = ([], Inl ConflictingSelectors) \<and>
   read sample_catalog sample_store (Some ''nonexistent_type'') (Some ''x'') None None
     \<noteq> ([], Inl (UnknownType ''nonexistent_type''))"
  by (simp add: read_def nonblank_def strip_def is_space_def whitespace_chars_def type_exists_def
      sample_catalog_def)

text \<open>
  C7. When \<open>read\<close> succeeds, exactly one request went to the store, and its parameter set has
  the key \<open>type\<close>, \<open>id\<close>, \<open>q\<close>, \<open>attrs\<close> exactly when \<open>type_id\<close>, \<open>object_id\<close>, the normalised
  query, the attribute string is present and non-blank, with that input as its value; it has no
  other key, and no value of it is blank.
\<close>

theorem read_params_keys:
  assumes "read cat store tid oid attrs fs = (calls, Inr res)"
  shows "\<exists>p query. calls = [p] \<and> res = store p \<and> normalize_filters fs = Inr query \<and>
           p ''type'' = (if nonblank tid then tid else None) \<and>
           p ''id'' = (if nonblank oid then oid else None) \<and>
           p ''q'' = (if nonblank query then query else None) \<and>
           p ''attrs'' = (if nonblank attrs then attrs else None) \<and>
           dom p \<subseteq> {''type'', ''id'', ''q'', ''attrs''} \<and>
           (\<forall>k v. p k = Some v \<longrightarrow> strip v \<noteq> [])"
proof -
  from read_success[OF assms] obtain q where q: "normalize_filters fs = Inr q"
    "calls = [build_params tid oid q attrs]" "res = store (build_params tid oid q attrs)" by blast
  let ?p = "build_params tid oid q attrs"
  have "calls = [?p] \<and> res = store ?p \<and> normalize_filters fs = Inr q \<and>
           ?p ''type'' = (if nonblank tid then tid else None) \<and>
           ?p ''id'' = (if nonblank oid then oid else None) \<and>
           ?p ''q'' = (if nonblank q then q else None) \<and>
           ?p ''attrs'' = (if nonblank attrs then attrs else None) \<and>
           dom ?p \<subseteq> {''type'', ''id'', ''q'', ''attrs''} \<and>
           (\<forall>k v. ?p k = Some v \<longrightarrow> strip v \<noteq> [])"
    using q build_params_dom[of tid oid q attrs] build_params_nonblank[of tid oid q attrs]
    by (simp add: build_params_type build_params_id build_params_q build_params_attrs)
  then show ?thesis by blast
qed

theorem read_params_keys_witness:
  "read sample_catalog sample_store (Some ''plug'') (Some '' '') None (Some [''consumption > 0.5''])
     = ([[''type'' \<mapsto> ''plug'', ''q'' \<mapsto> ''consumption>0.5'']], Inr [''plug'']) \<and>
   (\<exists>p query. [[''type'' \<mapsto> ''plug'', ''q'' \<mapsto> ''consumption>0.5'']] = [p] \<and>
      [''plug''] = sample_store p \<and>
      normalize_filters (Some [''consumption > 0.5'']) = Inr query \<and>
      p ''type'' = (if nonblank (Some ''plug'') then Some ''plug'' else None) \<and>
      p ''id'' = (if nonblank (Some '' '') then Some '' '' else None) \<and>
      p ''q'' = (if nonblank query then query else None) \<and>
      p ''attrs'' = (if nonblank None then None else None) \<and>
      dom p \<subseteq> {''type'', ''id'', ''q'', ''attrs''} \<and>
      (\<forall>k v. p k = Some v \<longrightarrow> strip v \<noteq> []))"
proof -
  have h: "read sample_catalog sample_store (Some ''plug'') (Some '' '') None (Some [''consumption > 0.5''])
     = ([[''type'' \<mapsto> ''plug'', ''q'' \<mapsto> ''consumption>0.5'']], Inr [''plug''])"
    by (simp add: read_def read_impl_def nonblank_def type_exists_def sample_catalog_def
        sample_store_def build_params_def set_param_def normalize_filters_def supported_operators_def split1_def strip_def is_space_def
        whitespace_chars_def quote_value_def is_number_def is_quoted_def float_accepts_def
        float_strip_def float_space_chars_def skip_sign_def lower_def lower_char_def upper_chars_def
        lower_chars_def floatnumber_def digitpart_def is_digit_def exponent_end_def dquote_def
        squote_def)
  show ?thesis by (rule conjI[OF h read_params_keys[OF h]])
qed

text \<open>
  C8, as amended. On every list of filter strings on which the normaliser succeeds, none of
  which contains \<open>;\<close> and none of which, being split at \<open>==\<close>, has a trimmed attribute that
  ends in \<open>=\<close>, the normaliser is idempotent: its output split at \<open>;\<close> and normalised again
  is the same string. On every value, quoting twice is quoting once.
\<close>

theorem normalize_idempotent:
  assumes "normalize_filters (Some fs) = Inr (Some out)"
    and "\<forall>f \<in> set fs. spec_reparsable f"
  shows "normalize_filters (Some (split_char CHR '';'' out)) = Inr (Some out) \<and>
         (\<forall>v. quote_value (quote_value v) = quote_value v)"
proof -
  from assms(1) have ne: "fs \<noteq> []" by (auto simp: normalize_filters_def split: if_splits)
  with assms(1) obtain cs where cs: "normalize_loop fs [] = Inr cs" "out = join '';'' cs"
    by (auto simp: normalize_filters_def split: sum.splits)
  from normalize_loop_Inr[OF cs(1)] have p: "\<forall>f \<in> set fs. find_operator supported_operators f \<noteq> None" .
  from normalize_loop_clauses[OF p, of "[]"] cs(1) have m: "cs = map clause_of fs" by simp
  from ne m have cne: "cs \<noteq> []" by simp
  from p assms(2) m have 1: "\<forall>c \<in> set cs. find_operator supported_operators c \<noteq> None"
    and 2: "map clause_of cs = cs" and 3: "\<forall>c \<in> set cs. CHR '';'' \<notin> set c"
    using clause_of_idem by (auto simp: map_idI)
  from split_char_join[OF cne 3] cs(2) have sp: "split_char CHR '';'' out = cs" by simp
  from normalize_loop_clauses[OF 1, of "[]"] 2 have "normalize_loop cs [] = Inr cs" by simp
  with cne cs(2) sp have "normalize_filters (Some (split_char CHR '';'' out)) = Inr (Some out)"
    by (simp add: normalize_filters_def)
  then show ?thesis by (simp add: quote_value_idem)
qed

theorem normalize_idempotent_witness:
  "normalize_filters (Some [''consumption > 0.5'', ''located_in == building1''])
     = Inr (Some (''consumption>0.5;located_in=='' @ [dquote] @ ''building1'' @ [dquote])) \<and>
   spec_reparsable ''consumption > 0.5'' \<and> spec_reparsable ''located_in == building1'' \<and>
   normalize_filters
     (Some (split_char CHR '';'' (''consumption>0.5;located_in=='' @ [dquote] @ ''building1'' @ [dquote])))
     = Inr (Some (''consumption>0.5;located_in=='' @ [dquote] @ ''building1'' @ [dquote]))"
proof -
  let ?fs = "[''consumption > 0.5'', ''located_in == building1'']"
  let ?out = "''consumption>0.5;located_in=='' @ [dquote] @ ''building1'' @ [dquote]"
  have n: "normalize_filters (Some ?fs) = Inr (Some ?out)"
    by (simp add: normalize_filters_def supported_operators_def split1_def strip_def is_space_def
        whitespace_chars_def quote_value_def is_number_def is_quoted_def float_accepts_def
        float_strip_def float_space_chars_def skip_sign_def lower_def lower_char_def upper_chars_def
        lower_chars_def floatnumber_def digitpart_def is_digit_def exponent_end_def dquote_def
        squote_def)
  have r1: "spec_reparsable ''consumption > 0.5''"
    by (simp add: spec_reparsable_def supported_operators_def split1_def strip_def is_space_def
        whitespace_chars_def)
  have r2: "spec_reparsable ''located_in == building1''"
    by (simp add: spec_reparsable_def supported_operators_def split1_def strip_def is_space_def
        whitespace_chars_def)
  from r1 r2 have r: "\<forall>f \<in> set ?fs. spec_reparsable f" by simp
  from normalize_idempotent[OF n r]
  have "normalize_filters (Some (split_char CHR '';'' ?out)) = Inr (Some ?out)" by blast
  with n r1 r2 show ?thesis by blast
qed

theorem normalize_idempotent_counterexample:
  "normalize_filters (Some [''a==b;c'']) = Inr (Some (''a=='' @ [dquote] @ ''b;c'' @ [dquote])) \<and>
   normalize_filters (Some (split_char CHR '';'' (''a=='' @ [dquote] @ ''b;c'' @ [dquote])))
     = Inl (InvalidFilter (''c'' @ [dquote])) \<and>
   normalize_filters (Some [''a= ==b'']) = Inr (Some (''a==='' @ [dquote] @ ''b'' @ [dquote])) \<and>
   normalize_filters (Some (split_char CHR '';'' (''a==='' @ [dquote] @ ''b'' @ [dquote])))
     = Inr (Some (''a=='' @ [dquote] @ ''='' @ [dquote] @ ''b'' @ [dquote] @ [dquote]))"
  by (simp add: normalize_filters_def supported_operators_def split1_def strip_def is_space_def
        whitespace_chars_def quote_value_def is_number_def is_quoted_def float_accepts_def
        float_strip_def float_space_chars_def skip_sign_def lower_def lower_char_def upper_chars_def
        lower_chars_def floatnumber_def digitpart_def is_digit_def exponent_end_def dquote_def
        squote_def)

text \<open>
  C9, as amended. A raw value of at least two characters whose first and last characters are
  equal and are a quote character (single or double) is left as it is by the normaliser,
  whatever lies between them: nothing about inner quotes is checked. (A value that is one
  quote character alone is not taken as quoted, and is wrapped in double quotes.)
\<close>

theorem prequoted_value_preserved:
  assumes "2 \<le> length v" and "hd v = last v" and "hd v = squote \<or> hd v = dquote"
  shows "quote_value v = v \<and>
         (\<forall>f a op. find_operator supported_operators f = Some (a, op, v) \<longrightarrow>
            normalize_filters (Some [f]) = Inr (Some (a @ op @ v)))"
proof -
  from assms have "is_quoted v" by (auto simp: is_quoted_def)
  then have q: "quote_value v = v" by (simp add: quote_value_def)
  then show ?thesis by (simp add: normalize_filters_def)
qed

theorem prequoted_value_preserved_witness:
  "2 \<le> length ([dquote] @ ''a'' @ [dquote] @ ''b'' @ [dquote]) \<and>
   hd ([dquote] @ ''a'' @ [dquote] @ ''b'' @ [dquote]) = last ([dquote] @ ''a'' @ [dquote] @ ''b'' @ [dquote]) \<and>
   hd ([dquote] @ ''a'' @ [dquote] @ ''b'' @ [dquote]) = dquote \<and>
   quote_value ([dquote] @ ''a'' @ [dquote] @ ''b'' @ [dquote]) = [dquote] @ ''a'' @ [dquote] @ ''b'' @ [dquote] \<and>
   normalize_filters (Some [''name == '' @ [dquote] @ ''a'' @ [dquote] @ ''b'' @ [dquote]])
     = Inr (Some (''name=='' @ [dquote] @ ''a'' @ [dquote] @ ''b'' @ [dquote]))"
proof -
  let ?v = "[dquote] @ ''a'' @ [dquote] @ ''b'' @ [dquote]"
  have a: "2 \<le> length ?v" by simp
  have b: "hd ?v = last ?v" by simp
  have c: "hd ?v = dquote" by simp
  have c': "hd ?v = squote \<or> hd ?v = dquote" by simp
  have f: "find_operator supported_operators (''name == '' @ ?v) = Some (''name'', ''=='', ?v)"
    by (simp add: supported_operators_def split1_def strip_def is_space_def whitespace_chars_def
        dquote_def)
  from prequoted_value_preserved[OF a b c'] f
  have "quote_value ?v = ?v \<and> normalize_filters (Some [''name == '' @ ?v]) = Inr (Some (''name'' @ ''=='' @ ?v))"
    by blast
  with a b c show ?thesis by simp
qed

theorem prequoted_value_preserved_counterexample:
  "hd [squote] = last [squote] \<and> hd [squote] = squote \<and>
   quote_value [squote] = [dquote, squote, dquote] \<and> quote_value [squote] \<noteq> [squote] \<and>
   normalize_filters (Some [''name=='' @ [squote]]) = Inr (Some (''name=='' @ [dquote, squote, dquote]))"
  by (simp add: normalize_filters_def supported_operators_def split1_def strip_def is_space_def
      whitespace_chars_def quote_value_def is_number_def
      is_quoted_def float_accepts_def float_strip_def float_space_chars_def skip_sign_def lower_def
      lower_char_def upper_chars_def lower_chars_def floatnumber_def digitpart_def is_digit_def
      exponent_end_def dquote_def squote_def)

text \<open>
  C10, as amended. \<open>read\<close> returns the conflicting-selectors error exactly when both \<open>type_id\<close>
  and \<open>object_id\<close> are supplied and non-blank. A call with neither selector (absent or blank),
  whose filters, if any, each contain a supported operator, makes one request to the store,
  with neither the key \<open>type\<close> nor the key \<open>id\<close>. (A filter without an operator stops such a call
  before the request.)
\<close>

theorem read_selector_acceptance:
  "(snd (read cat store tid oid attrs fs) = Inl ConflictingSelectors \<longleftrightarrow> nonblank tid \<and> nonblank oid) \<and>
   (\<not> nonblank tid \<and> \<not> nonblank oid \<and> (\<forall>fl f. fs = Some fl \<longrightarrow> f \<in> set fl \<longrightarrow> spec_has_operator f) \<longrightarrow>
      (\<exists>p. read cat store tid oid attrs fs = ([p], Inr (store p)) \<and> p ''type'' = None \<and> p ''id'' = None))"
proof (intro conjI impI)
  show "snd (read cat store tid oid attrs fs) = Inl ConflictingSelectors \<longleftrightarrow> nonblank tid \<and> nonblank oid"
  proof
    assume a: "snd (read cat store tid oid attrs fs) = Inl ConflictingSelectors"
    show "nonblank tid \<and> nonblank oid"
    proof (rule ccontr)
      assume n: "\<not> (nonblank tid \<and> nonblank oid)"
      with a have "snd (read_impl store tid oid attrs fs) = Inl ConflictingSelectors"
        by (auto simp: read_def split: option.splits if_splits)
      then have "normalize_filters fs = Inl ConflictingSelectors"
        by (auto simp: read_impl_def Let_def split: sum.splits)
      from normalize_error_kind[OF this] show False by auto
    qed
  next
    assume "nonblank tid \<and> nonblank oid"
    then show "snd (read cat store tid oid attrs fs) = Inl ConflictingSelectors"
      by (simp add: read_def)
  qed
next
  assume a: "\<not> nonblank tid \<and> \<not> nonblank oid \<and> (\<forall>fl f. fs = Some fl \<longrightarrow> f \<in> set fl \<longrightarrow> spec_has_operator f)"
  then obtain q where q: "normalize_filters fs = Inr q" using normalize_ok[of fs] by blast
  let ?p = "build_params tid oid q attrs"
  from a have "read cat store tid oid attrs fs = read_impl store tid oid attrs fs"
    by (simp add: read_def)
  with q have "read cat store tid oid attrs fs = ([?p], Inr (store ?p))"
    by (simp add: read_impl_def Let_def)
  moreover from a have "?p ''type'' = None" "?p ''id'' = None"
    by (simp_all add: build_params_type build_params_id)
  ultimately show "\<exists>p. read cat store tid oid attrs fs = ([p], Inr (store p)) \<and> p ''type'' = None \<and> p ''id'' = None"
    by blast
qed

theorem read_selector_acceptance_witness:
  "\<not> nonblank None \<and> \<not> nonblank (Some '' '') \<and> spec_has_operator ''temperature>30'' \<and>
   (\<exists>p. read sample_catalog sample_store None (Some '' '') None (Some [''temperature>30''])
           = ([p], Inr (sample_store p)) \<and> p ''type'' = None \<and> p ''id'' = None) \<and>
   snd (read sample_catalog sample_store (Some ''plug'') (Some ''x'') None None) = Inl ConflictingSelectors"
proof -
  have h1: "\<not> nonblank None" "\<not> nonblank (Some '' '')"
    by (simp_all add: nonblank_def strip_def is_space_def whitespace_chars_def)
  have h2: "spec_has_operator ''temperature>30''"
    by (simp add: spec_has_operator_def supported_operators_def py_in_sublist[symmetric])
  have h3: "nonblank (Some ''plug'') \<and> nonblank (Some ''x'')"
    by (simp add: nonblank_def strip_def is_space_def whitespace_chars_def)
  from read_selector_acceptance[of sample_catalog sample_store None "Some '' ''" None
      "Some [''temperature>30'']"] h1 h2
  have a: "\<exists>p. read sample_catalog sample_store None (Some '' '') None (Some [''temperature>30''])
           = ([p], Inr (sample_store p)) \<and> p ''type'' = None \<and> p ''id'' = None"
    by simp
  from read_selector_acceptance[of sample_catalog sample_store "Some ''plug''" "Some ''x''" None None] h3
  have b: "snd (read sample_catalog sample_store (Some ''plug'') (Some ''x'') None None) = Inl ConflictingSelectors"
    by blast
  from h1 h2 a b show ?thesis by blast
qed

theorem read_selector_acceptance_counterexample:
  "\<not> nonblank None \<and>
   read sample_catalog sample_store None None None (Some [''bad_clause_no_operator''])
     = ([], Inl (InvalidFilter ''bad_clause_no_operator''))"
  by (simp add: read_def read_impl_def nonblank_def normalize_filters_def supported_operators_def split1_def strip_def is_space_def
        whitespace_chars_def quote_value_def is_number_def is_quoted_def float_accepts_def
        float_strip_def float_space_chars_def skip_sign_def lower_def lower_char_def upper_chars_def
        lower_chars_def floatnumber_def digitpart_def is_digit_def exponent_end_def dquote_def
        squote_def)

end
